theory Spec2Isabelle
  imports Main "HOL-Library.Monad_Syntax"
begin

section \<open>The braid lister \<open>lb.C\<close>: a shallow embedding\<close>

text \<open>
  A braid word is a \<open>std::vector<int>\<close>, modelled as an \<open>int list\<close>. The C++ \<open>int\<close> is
  modelled by the unbounded HOL \<open>int\<close>. This is the program for the bounds it is made for,
  \<open>maxB1 \<ge> 0\<close>: there every value the search handles (letters, lengths, counters, the
  differences in \<open>completable\<close>) is bounded by a small multiple of \<open>maxB1\<close>, far away from
  the 32-bit range for every run that can finish. For a negative bound near the smallest
  \<open>int\<close> the subtractions of \<open>completable\<close> overflow in the source and the model says
  nothing about that run.

  Undefined behaviour of the source (dereferencing an iterator outside its vector, reading
  \<open>back()\<close> of an empty vector) and loops that do not return are the value \<open>None\<close>.
  The constant \<open>debug\<close> of the source is \<open>false\<close>; the trace output it guards is left
  out, the \<open>throw\<close> it guards is kept as a branch.
\<close>

definition debug :: bool where
  "debug = False"

subsection \<open>Braid invariant utilities\<close>

definition max_braid :: "int list \<Rightarrow> int" where
  "max_braid b = fold (\<lambda>x result. if x > result then x else result) b 1"

definition sum_braid :: "int list \<Rightarrow> int" where
  "sum_braid b = fold (\<lambda>x result. result + x) b 0"

text \<open>\<open>std::max_element\<close> on a non-empty range.\<close>

fun max_element :: "int list \<Rightarrow> int" where
  "max_element (x # xs) = fold (\<lambda>y m. if m < y then y else m) xs x"

definition lastLetterTooHigh :: "int list \<Rightarrow> int \<Rightarrow> bool" where
  "lastLetterTooHigh b maxB1 =
     (if length b < 2 then False else last b > 1 + max_element (butlast b))"

text \<open>
  The inner \<open>for\<close> loop of \<open>numberOfComponents\<close>: one letter moves the current position
  (1-based) up, down, or not at all.
\<close>

definition strand_step :: "int \<Rightarrow> int \<Rightarrow> int" where
  "strand_step j currentPos =
     (if j = currentPos then currentPos + 1
      else if j = currentPos - 1 then currentPos - 1
      else currentPos)"

definition follow :: "int list \<Rightarrow> int \<Rightarrow> int" where
  "follow b currentPos = fold strand_step b currentPos"

text \<open>
  One round of the loop \<open>while (*i == 0)\<close> moves the iterator from offset \<open>i\<close> to offset
  \<open>currentPos - 1\<close>, where \<open>currentPos\<close> starts at \<open>i + 1\<close> and runs through the word.
\<close>

definition next_index :: "int list \<Rightarrow> int \<Rightarrow> int" where
  "next_index b i = follow b (i + 1) - 1"

text \<open>
  The loop \<open>while (*i == 0)\<close>: \<open>i\<close> is the offset of the iterator in \<open>compNumber\<close>.
  Dereferencing outside the vector is \<open>None\<close>.
\<close>

partial_function (option) label_component ::
    "int list \<Rightarrow> int \<Rightarrow> int list \<Rightarrow> int \<Rightarrow> (int list \<times> int) option" where
  "label_component b compCounter compNumber i =
     (if i < 0 \<or> int (length compNumber) \<le> i then None
      else if compNumber ! nat i = 0 then
        label_component b compCounter (compNumber[nat i := compCounter]) (next_index b i)
      else Some (compNumber, i))"

text \<open>The loop \<open>for (; (i != compNumber.end()) && (*i != 0); ++i);\<close>.\<close>

function next_unlabelled :: "int list \<Rightarrow> nat \<Rightarrow> nat" where
  "next_unlabelled compNumber i =
     (if i < length compNumber \<and> compNumber ! i \<noteq> 0
      then next_unlabelled compNumber (i + 1) else i)"
  by pat_completeness auto
termination
  by (relation "measure (\<lambda>(compNumber, i). length compNumber - i)") auto

declare next_unlabelled.simps [simp del]

partial_function (option) count_components ::
    "int list \<Rightarrow> int \<Rightarrow> int list \<Rightarrow> nat \<Rightarrow> int option" where
  "count_components b compCounter compNumber i =
     (if i \<noteq> length compNumber then
        Option.bind (label_component b (compCounter + 1) compNumber (int i))
          (\<lambda>(compNumber', i').
             count_components b (compCounter + 1) compNumber'
               (next_unlabelled compNumber' (nat i')))
      else Some compCounter)"

declare label_component.simps [code]
declare count_components.simps [code]

definition numberOfComponents :: "int list \<Rightarrow> int option" where
  "numberOfComponents b =
     (if b = [] then Some 0
      else count_components b 0 (replicate (nat (max_braid b + 1)) 0) 0)"

definition b1 :: "int list \<Rightarrow> int" where
  "b1 b = 1 + int (length b) - (max_braid b + 1)"

subsection \<open>Canonical-form predicates\<close>

text \<open>The scan of one column \<open>i\<close>: the state is \<open>(last, twistRegions)\<close>.\<close>

definition twist_scan :: "int \<Rightarrow> int \<Rightarrow> int \<times> int \<Rightarrow> int \<times> int" where
  "twist_scan i j st =
     (case st of (lst, twistRegions) \<Rightarrow>
        if (j = i \<or> j = i + 1) \<and> j \<noteq> lst then (j, twistRegions + 1)
        else (lst, twistRegions))"

definition twistRegions :: "int list \<Rightarrow> int \<Rightarrow> int" where
  "twistRegions b i = snd (fold (twist_scan i) b (- 1, 0))"

text \<open>
  The loop over the columns \<open>i = 1, ..., columns - 1\<close>; \<open>None\<close> is the \<open>throw\<close> of the
  debug build. The indices \<open>i - 1\<close> and \<open>i\<close> are inside the vector of size \<open>columns\<close>, so
  \<open>at\<close> does not throw.
\<close>

definition mark_column :: "int \<Rightarrow> nat \<Rightarrow> int list \<Rightarrow> int list" where
  "mark_column tr i missingCrossings =
     (let m1 = (if tr = 2 \<and> missingCrossings ! (i - 1) = 0
                then missingCrossings[i - 1 := 1] else missingCrossings);
          m2 = (if tr < 4 \<and> m1 ! i = 0 then m1[i := 1] else m1)
      in m2)"

fun missing_loop :: "int list \<Rightarrow> nat list \<Rightarrow> int list \<Rightarrow> int list option" where
  "missing_loop b [] missingCrossings = Some missingCrossings"
| "missing_loop b (i # is) missingCrossings =
     (let tr = twistRegions b (int i) in
      if debug \<and> tr < 2 then None
      else missing_loop b is (mark_column tr i missingCrossings))"

definition missingCrossingsForPrimality :: "int list \<Rightarrow> int option" where
  "missingCrossingsForPrimality b =
     (let columns = nat (max_braid b) in
      map_option sum_braid (missing_loop b [1..<columns] (replicate columns 0)))"

text \<open>\<open>std::lexicographical_compare\<close>: is the first range strictly smaller?\<close>

fun lexicographical_compare :: "int list \<Rightarrow> int list \<Rightarrow> bool" where
  "lexicographical_compare [] [] = False"
| "lexicographical_compare [] (y # ys) = True"
| "lexicographical_compare (x # xs) [] = False"
| "lexicographical_compare (x # xs) (y # ys) =
     (if x < y then True else if y < x then False else lexicographical_compare xs ys)"

text \<open>
  \<open>lexicoGood\<close> starts at \<open>b.begin() + 1\<close>, which is outside an empty vector.
\<close>

definition lexicoGood :: "int list \<Rightarrow> bool option" where
  "lexicoGood b =
     (if b = [] then None
      else Some (list_all
        (\<lambda>i. \<not> lexicographical_compare (drop i b) (take (length b - i) b))
        [1..<length b]))"

definition commutes_with :: "int \<Rightarrow> int \<Rightarrow> bool" where
  "commutes_with s x = (x < s - 1 \<or> x > s + 1)"

text \<open>\<open>reidemeister\<close> walks the reversed word; \<open>*b.rbegin()\<close> needs a letter.\<close>

definition reidemeister :: "int list \<Rightarrow> bool option" where
  "reidemeister b =
     (case rev b of
        [] \<Rightarrow> None
      | s # r \<Rightarrow>
         (case dropWhile (commutes_with s) r of
            [] \<Rightarrow> Some True
          | x # r' \<Rightarrow>
             if x = s \<or> x = s + 1 then Some True
             else
               (case dropWhile (commutes_with s) r' of
                  [] \<Rightarrow> Some True
                | y # r'' \<Rightarrow> Some (y = s - 1 \<or> y = s + 1))))"

subsection \<open>Completability oracle\<close>

definition int_of_bool :: "bool \<Rightarrow> int" where
  "int_of_bool p = (if p then 1 else 0)"

definition completable :: "int list \<Rightarrow> int \<Rightarrow> int option" where
  "completable b maxB1 =
     do {
       comps \<leftarrow> numberOfComponents b;
       missing \<leftarrow> missingCrossingsForPrimality b;
       lex \<leftarrow> lexicoGood b;
       reid \<leftarrow> reidemeister b;
       Some (int_of_bool (comps - (maxB1 - b1 b) \<le> 1) +
             2 * int_of_bool (missing \<le> maxB1 - b1 b) +
             4 * int_of_bool lex +
             8 * int_of_bool reid)
     }"

subsection \<open>Output\<close>

fun show_nat :: "nat \<Rightarrow> string" where
  "show_nat k =
     (if k < 10 then [char_of (48 + k)]
      else show_nat (k div 10) @ [char_of (48 + k mod 10)])"

declare show_nat.simps [simp del]

definition show_int :: "int \<Rightarrow> string" where
  "show_int k = (if k < 0 then CHR ''-'' # show_nat (nat (- k)) else show_nat (nat k))"

definition newline :: string where
  "newline = [CHR 0x0A]"

definition printBraid :: "int list \<Rightarrow> bool \<Rightarrow> string" where
  "printBraid b nl = map (\<lambda>x. char_of (x + 96)) b @ (if nl then newline else [])"

subsection \<open>DT-code extractor\<close>

record intpair =
  o_of :: int
  e_of :: int
  s_of :: bool

record dt_state =
  dt_n :: "intpair list"
  dt_passed :: int
  dt_c :: int
  dt_crossingCounter :: int

text \<open>The body of the \<open>for\<close> loop of \<open>printDT\<close> at the letter of index \<open>k\<close>.\<close>

definition dt_visit :: "int list \<Rightarrow> nat \<Rightarrow> dt_state \<Rightarrow> dt_state" where
  "dt_visit v k st =
     (let x = v ! k; c = dt_c st; cc = dt_crossingCounter st in
      if x = c \<or> x = c + 1 then
        let p = dt_n st ! k;
            p1 = (if cc mod 2 \<noteq> 0 then p\<lparr>o_of := cc\<rparr> else p\<lparr>e_of := cc\<rparr>);
            p2 = p1\<lparr>s_of := ((cc mod 2 = 0) = (x \<noteq> c + 1))\<rparr>
        in st\<lparr>dt_n := (dt_n st)[k := p2],
              dt_crossingCounter := cc + 1,
              dt_c := (if x = c + 1 then c + 1 else c - 1)\<rparr>
      else st)"

definition dt_pass :: "int list \<Rightarrow> dt_state \<Rightarrow> dt_state" where
  "dt_pass v st =
     (let st' = fold (dt_visit v) [0..<length v] st
      in st'\<lparr>dt_passed := dt_passed st' + 1\<rparr>)"

text \<open>The \<open>do ... while (c != 0)\<close> loop.\<close>

partial_function (option) dt_loop :: "int list \<Rightarrow> dt_state \<Rightarrow> dt_state option" where
  "dt_loop v st =
     (let st' = dt_pass v st in
      if dt_c st' \<noteq> 0 then dt_loop v st' else Some st')"

declare dt_loop.simps [code]

definition dt_init :: "int list \<Rightarrow> dt_state" where
  "dt_init v =
     \<lparr>dt_n = replicate (length v) \<lparr>o_of = 0, e_of = 0, s_of = False\<rparr>,
      dt_passed = 0, dt_c = 0, dt_crossingCounter = 1\<rparr>"

text \<open>
  The vector \<open>dt\<close> after the sort by the odd label. (\<open>std::sort\<close> is not stable; the
  model sorts stably, which is the same wherever the odd labels are distinct.)
\<close>

definition dt_code :: "dt_state \<Rightarrow> int list" where
  "dt_code st =
     map (\<lambda>p. e_of p * (if s_of p then 1 else - 1)) (sort_key o_of (dt_n st))"

definition dt_line :: "int list \<Rightarrow> int \<Rightarrow> string" where
  "dt_line dt counter =
     '': '' @ show_nat (length dt) @ '' '' @ show_int counter @
     concat (map (\<lambda>x. '' '' @ show_int x) dt) @ newline"

text \<open>
  \<open>printDT\<close> returns its boolean result and the text it wrote to \<open>std::cout\<close>.
\<close>

definition printDT :: "int list \<Rightarrow> int \<Rightarrow> (bool \<times> string) option" where
  "printDT v counter =
     (let maxGen = max_braid v - 1 in
      case dt_loop v (dt_init v) of
        None \<Rightarrow> None
      | Some st \<Rightarrow>
          if dt_passed st \<noteq> maxGen + 2 then Some (False, [])
          else Some (True, dt_line (dt_code st) counter))"

subsection \<open>Search driver\<close>

text \<open>
  The state of \<open>listBraids\<close>: the word, the counter, the text written to \<open>std::cout\<close>,
  and (a history variable) the words handed to \<open>printBraid\<close> so far.
\<close>

record search_state =
  braid :: "int list"
  counter :: int
  out :: string
  emitted :: "int list list"

text \<open>\<open>b.back() += 1\<close>, \<open>b.pop_back()\<close> and \<open>appendLetter\<close> need a last letter.\<close>

definition inc_back :: "int list \<Rightarrow> int list option" where
  "inc_back b = (if b = [] then None else Some (butlast b @ [last b + 1]))"

definition pop_back :: "int list \<Rightarrow> int list option" where
  "pop_back b = (if b = [] then None else Some (butlast b))"

definition appendLetter :: "int list \<Rightarrow> int list option" where
  "appendLetter b =
     (if b = [] then None else Some (b @ [if last b = 1 then 1 else last b - 1]))"

definition listBraids_step :: "int \<Rightarrow> search_state \<Rightarrow> search_state option" where
  "listBraids_step maxB1 st =
     (let b = braid st in
      if lastLetterTooHigh b maxB1 then
        do { b' \<leftarrow> pop_back b; b'' \<leftarrow> inc_back b'; Some (st\<lparr>braid := b''\<rparr>) }
      else
        do {
          c \<leftarrow> completable b maxB1;
          if c \<noteq> 15 then
            do { b' \<leftarrow> inc_back b; Some (st\<lparr>braid := b'\<rparr>) }
          else if b1 b < maxB1 then
            do { b' \<leftarrow> appendLetter b; Some (st\<lparr>braid := b'\<rparr>) }
          else
            do {
              r \<leftarrow> printDT b (counter st + 1);
              b' \<leftarrow> inc_back b;
              Some \<lparr>braid = b', counter = counter st + 1,
                    out = out st @ printBraid b False @ snd r,
                    emitted = emitted st @ [b]\<rparr>
            }
        })"

partial_function (option) listBraids_loop :: "int \<Rightarrow> search_state \<Rightarrow> search_state option" where
  "listBraids_loop maxB1 st =
     (if length (braid st) > 1
      then Option.bind (listBraids_step maxB1 st) (listBraids_loop maxB1)
      else Some st)"

declare listBraids_loop.simps [code]

definition listBraids_init :: search_state where
  "listBraids_init = \<lparr>braid = [1, 1], counter = 0, out = [], emitted = []\<rparr>"

definition listBraids :: "int \<Rightarrow> search_state option" where
  "listBraids maxB1 = listBraids_loop maxB1 listBraids_init"

text \<open>The first \<open>k\<close> iterations of the driver loop.\<close>

fun listBraids_steps :: "nat \<Rightarrow> int \<Rightarrow> search_state \<Rightarrow> search_state option" where
  "listBraids_steps 0 maxB1 st = Some st"
| "listBraids_steps (Suc k) maxB1 st =
     (if length (braid st) > 1
      then Option.bind (listBraids_step maxB1 st) (listBraids_steps k maxB1)
      else Some st)"

text \<open>The states the driver loop passes through, the seed and the final state included.\<close>

inductive reachable :: "int \<Rightarrow> search_state \<Rightarrow> bool" for maxB1 :: int where
  reachable_init: "reachable maxB1 listBraids_init"
| reachable_step: "reachable maxB1 st \<Longrightarrow> length (braid st) > 1 \<Longrightarrow>
     listBraids_step maxB1 st = Some st' \<Longrightarrow> reachable maxB1 st'"

subsection \<open>Entry point\<close>

text \<open>
  \<open>atoi\<close> of the C library: leading white space, an optional sign, then the longest run
  of decimal digits; the value is 0 when there is no digit.
\<close>

definition isspace :: "char \<Rightarrow> bool" where
  "isspace ch = (of_char ch \<in> {32, 9, 10, 11, 12, 13 :: nat})"

definition isdigit :: "char \<Rightarrow> bool" where
  "isdigit ch = (48 \<le> (of_char ch :: nat) \<and> (of_char ch :: nat) \<le> 57)"

definition atoi_sign :: "string \<Rightarrow> bool \<times> string" where
  "atoi_sign s =
     (case dropWhile isspace s of
        [] \<Rightarrow> (False, [])
      | ch # r \<Rightarrow>
          if ch = CHR ''-'' then (True, r)
          else if ch = CHR ''+'' then (False, r)
          else (False, ch # r))"

definition atoi_digits :: "string \<Rightarrow> string" where
  "atoi_digits s = takeWhile isdigit (snd (atoi_sign s))"

definition atoi :: "string \<Rightarrow> int" where
  "atoi s =
     (let v = fold (\<lambda>ch a. 10 * a + (of_char ch - 48)) (atoi_digits s) 0
      in if fst (atoi_sign s) then - v else v)"

text \<open>
  What a run of the program leaves behind: the exit code, the two streams, and the bound
  \<open>listBraids\<close> was called with (\<open>None\<close> when it was not called).
\<close>

record run_result =
  exit_code :: int
  std_err :: string
  std_out :: string
  searched :: "int option"

text \<open>\<open>argv\<close> holds the program name and the arguments, \<open>argc\<close> is its length.\<close>

definition main :: "string list \<Rightarrow> run_result option" where
  "main argv =
     (if length argv = 2 then
        (let g = atoi (argv ! 1) in
         do {
           st \<leftarrow> listBraids (2 * g);
           Some \<lparr>exit_code = 0,
                 std_err = ''Working on genus '' @ show_int g @ ''.'' @ newline,
                 std_out = out st,
                 searched = Some (2 * g)\<rparr>
         })
      else
        Some \<lparr>exit_code = 0,
              std_err = ''One positive integer as parameter required.'' @ newline,
              std_out = [],
              searched = None\<rparr>)"

subsection \<open>The component count of the specification\<close>

text \<open>
  The specification defines the number of components of a word as the number of cycles of
  the permutation of the strands \<open>1, ..., max + 1\<close> that composes the transpositions
  \<open>(i, i + 1)\<close> of its letters in word order. These definitions follow its words; they
  are compared with \<open>numberOfComponents\<close> below.
\<close>

definition transposition :: "int \<Rightarrow> int \<Rightarrow> int" where
  "transposition i p = (if p = i then i + 1 else if p = i + 1 then i else p)"

definition induced_permutation :: "int list \<Rightarrow> int \<Rightarrow> int" where
  "induced_permutation w = fold transposition w"

definition cycle_of :: "(int \<Rightarrow> int) \<Rightarrow> int \<Rightarrow> int set" where
  "cycle_of f p = range (\<lambda>k. (f ^^ k) p)"

definition cycles :: "(int \<Rightarrow> int) \<Rightarrow> int set \<Rightarrow> int set set" where
  "cycles f S = cycle_of f ` S"

definition spec_components :: "int list \<Rightarrow> nat" where
  "spec_components w = card (cycles (induced_permutation w) {1 .. max_braid w + 1})"

text \<open>The offsets of \<open>compNumber\<close> that carry a component number already.\<close>

definition labelled :: "int list \<Rightarrow> int set" where
  "labelled cn = {i. 0 \<le> i \<and> i < int (length cn) \<and> cn ! nat i \<noteq> 0}"

subsection \<open>Invariant and progress measure of the driver loop\<close>

text \<open>
  The invariant of the word of the driver: it is not empty, its letters are at least 1,
  the letter at index \<open>k\<close> is at most \<open>k + 1\<close> (the last one may exceed this by one), and
  its length is bounded in terms of \<open>maxB1\<close>. Every transition makes the word larger when
  it is read as a number in a base above all letters and padded to the maximal length.
\<close>

definition prefix_bounded :: "int list \<Rightarrow> bool" where
  "prefix_bounded p = (\<forall>k<length p. p ! k \<le> int k + 1)"

definition search_inv :: "int \<Rightarrow> int list \<Rightarrow> bool" where
  "search_inv m w =
     (w \<noteq> [] \<and> (\<forall>x\<in>set w. 1 \<le> x) \<and> prefix_bounded (butlast w) \<and>
      last w \<le> int (length w) + 1 \<and> int (length w) \<le> max 2 (2 * m + 3))"

definition max_length :: "int \<Rightarrow> nat" where
  "max_length m = nat (max 2 (2 * m + 3))"

definition base :: "int \<Rightarrow> int" where
  "base m = int (max_length m) + 2"

definition word_number :: "int \<Rightarrow> int list \<Rightarrow> int" where
  "word_number B w = foldl (\<lambda>a x. a * B + x) 0 w"

definition progress :: "int \<Rightarrow> int list \<Rightarrow> int" where
  "progress m w = word_number (base m) w * base m ^ (max_length m - length w)"

subsection \<open>The traversal of \<open>printDT\<close> step by step\<close>

text \<open>
  The traversal of \<open>printDT\<close> read as one sequence of steps: step \<open>t\<close> looks at the letter
  of index \<open>t mod n\<close>. \<open>dt_pos\<close> is the value of \<open>c\<close> before step \<open>t\<close>, \<open>dt_vis\<close> says
  whether step \<open>t\<close> enters the \<open>if\<close>, \<open>dt_lab\<close> is the value of \<open>crossingCounter\<close> before
  step \<open>t\<close>, and \<open>dt_run\<close> is the state after the first \<open>T\<close> steps (without the count of
  the passes).
\<close>

definition dt_move :: "int \<Rightarrow> int \<Rightarrow> int" where
  "dt_move x c = (if x = c + 1 then c + 1 else if x = c then c - 1 else c)"

fun dt_pos :: "int list \<Rightarrow> nat \<Rightarrow> int" where
  "dt_pos v 0 = 0"
| "dt_pos v (Suc t) = dt_move (v ! (t mod length v)) (dt_pos v t)"

definition dt_vis :: "int list \<Rightarrow> nat \<Rightarrow> bool" where
  "dt_vis v t =
     (v ! (t mod length v) = dt_pos v t \<or> v ! (t mod length v) = dt_pos v t + 1)"

definition dt_lab :: "int list \<Rightarrow> nat \<Rightarrow> int" where
  "dt_lab v t = 1 + int (card {s. s < t \<and> dt_vis v s})"

definition dt_run :: "int list \<Rightarrow> nat \<Rightarrow> dt_state" where
  "dt_run v T = fold (dt_visit v) (map (\<lambda>t. t mod length v) [0..<T]) (dt_init v)"

text \<open>\<open>vis01\<close> is 1 at the steps that enter the \<open>if\<close>, and 0 at the others.\<close>

definition vis01 :: "int list \<Rightarrow> nat \<Rightarrow> int" where
  "vis01 v t = (if dt_vis v t then 1 else 0)"

section \<open>Properties\<close>

subsection \<open>The driver step by step\<close>

lemma step_cases:
  assumes "listBraids_step m st = Some st'"
  obtains
    (backtrack) b' where "lastLetterTooHigh (braid st) m" "pop_back (braid st) = Some b'"
       "inc_back b' = Some (braid st')" "emitted st' = emitted st" "counter st' = counter st" "out st' = out st"
  | (increase) c where "\<not> lastLetterTooHigh (braid st) m" "completable (braid st) m = Some c" "c \<noteq> 15"
       "inc_back (braid st) = Some (braid st')" "emitted st' = emitted st" "counter st' = counter st" "out st' = out st"
  | (append) "\<not> lastLetterTooHigh (braid st) m" "completable (braid st) m = Some 15" "b1 (braid st) < m"
       "appendLetter (braid st) = Some (braid st')" "emitted st' = emitted st" "counter st' = counter st" "out st' = out st"
  | (emit) r where "\<not> lastLetterTooHigh (braid st) m" "completable (braid st) m = Some 15" "\<not> b1 (braid st) < m"
       "printDT (braid st) (counter st + 1) = Some r"
       "inc_back (braid st) = Some (braid st')" "emitted st' = emitted st @ [braid st]"
       "counter st' = counter st + 1" "out st' = out st @ printBraid (braid st) False @ snd r"
  using assms unfolding listBraids_step_def Let_def
  by (auto split: if_splits Option.bind_splits)

lemma inc_back_props:
  assumes "inc_back b = Some b'"
  shows "b \<noteq> []" "length b' = length b" "butlast b' = butlast b" "last b' = last b + 1"
  using assms by (auto simp: inc_back_def split: if_splits)

lemma inc_back_positive:
  assumes "inc_back b = Some b'" "\<forall>x\<in>set b. 1 \<le> x"
  shows "\<forall>x\<in>set b'. 1 \<le> x"
proof -
  from assms(1) have ne: "b \<noteq> []" and b': "b' = butlast b @ [last b + 1]"
    by (auto simp: inc_back_def split: if_splits)
  from ne assms(2) have "1 \<le> last b" by simp
  moreover have "\<forall>x\<in>set (butlast b). 1 \<le> x"
    using assms(2) by (meson in_set_butlastD)
  ultimately show ?thesis unfolding b' by auto
qed

lemma pop_back_positive:
  assumes "pop_back b = Some b'" "\<forall>x\<in>set b. 1 \<le> x"
  shows "\<forall>x\<in>set b'. 1 \<le> x"
  using assms by (auto simp: pop_back_def split: if_splits dest: in_set_butlastD)

lemma appendLetter_positive:
  assumes "appendLetter b = Some b'" "\<forall>x\<in>set b. 1 \<le> x"
  shows "\<forall>x\<in>set b'. 1 \<le> x"
proof -
  from assms(1) have ne: "b \<noteq> []" and b': "b' = b @ [if last b = 1 then 1 else last b - 1]"
    by (auto simp: appendLetter_def split: if_splits)
  from ne assms(2) have "1 \<le> last b" by simp
  then show ?thesis using assms(2) unfolding b' by auto
qed

lemma step_positive:
  assumes "listBraids_step m st = Some st'" "1 < length (braid st)" "\<forall>x\<in>set (braid st). 1 \<le> x"
  shows "braid st' \<noteq> [] \<and> (\<forall>x\<in>set (braid st'). 1 \<le> x)"
  using assms(1)
proof (cases rule: step_cases)
  case (backtrack b')
  from backtrack(2) have b': "b' = butlast (braid st)"
    by (auto simp: pop_back_def split: if_splits)
  from backtrack(3) have "length (braid st') = length b'" by (rule inc_back_props)
  with b' assms(2) have "braid st' \<noteq> []" by auto
  moreover have "\<forall>x\<in>set (braid st'). 1 \<le> x"
    using inc_back_positive[OF backtrack(3)] pop_back_positive[OF backtrack(2) assms(3)] by blast
  ultimately show ?thesis by simp
next
  case (increase c)
  from increase(4) have "length (braid st') = length (braid st)" by (rule inc_back_props)
  with assms(2) have "braid st' \<noteq> []" by auto
  then show ?thesis using inc_back_positive[OF increase(4) assms(3)] by simp
next
  case append
  then have "braid st' \<noteq> []" by (auto simp: appendLetter_def split: if_splits)
  then show ?thesis using appendLetter_positive[OF append(4) assms(3)] by simp
next
  case (emit r)
  from emit(5) have "length (braid st') = length (braid st)" by (rule inc_back_props)
  with assms(2) have "braid st' \<noteq> []" by auto
  then show ?thesis using inc_back_positive[OF emit(5) assms(3)] by simp
qed

lemma reachable_positive:
  "reachable m st \<Longrightarrow> braid st \<noteq> [] \<and> (\<forall>x\<in>set (braid st). 1 \<le> x)"
proof (induction rule: reachable.induct)
  case reachable_init
  show ?case by (simp add: listBraids_init_def)
next
  case (reachable_step st st')
  then show ?case using step_positive by blast
qed

text \<open>
  Claim C9. In every state the driver loop passes through (the seed, the state after each
  transition, the final state) the braid word is non-empty and all its letters are at
  least 1; inside the loop this also holds between the \<open>pop_back\<close> and the increment of
  the backtracking transition.
\<close>

theorem braid_never_empty_letters_positive:
  "reachable maxB1 st \<Longrightarrow>
     braid st \<noteq> [] \<and> (\<forall>x\<in>set (braid st). 1 \<le> x) \<and>
     (1 < length (braid st) \<longrightarrow>
        (\<exists>b'. pop_back (braid st) = Some b' \<and> b' \<noteq> [] \<and> (\<forall>x\<in>set b'. 1 \<le> x)))"
proof -
  assume r: "reachable maxB1 st"
  then have p: "braid st \<noteq> []" "\<forall>x\<in>set (braid st). 1 \<le> x"
    using reachable_positive by blast+
  have "\<exists>b'. pop_back (braid st) = Some b' \<and> b' \<noteq> [] \<and> (\<forall>x\<in>set b'. 1 \<le> x)"
    if "1 < length (braid st)"
  proof -
    have "pop_back (braid st) = Some (butlast (braid st))"
      using p(1) by (simp add: pop_back_def)
    moreover have "butlast (braid st) \<noteq> []"
      using that by (cases "braid st" rule: rev_cases) auto
    moreover have "\<forall>x\<in>set (butlast (braid st)). 1 \<le> x"
      using p(2) by (meson in_set_butlastD)
    ultimately show ?thesis by blast
  qed
  with p show ?thesis by blast
qed

lemma reachable_after_one_step:
  "reachable 2 \<lparr>braid = [1, 1, 1], counter = 0, out = [], emitted = []\<rparr>"
proof -
  have "listBraids_step 2 listBraids_init =
          Some \<lparr>braid = [1, 1, 1], counter = 0, out = [], emitted = []\<rparr>"
    by code_simp
  moreover have "1 < length (braid listBraids_init)"
    by (simp add: listBraids_init_def)
  ultimately show ?thesis
    using reachable_step[OF reachable_init] by blast
qed

theorem braid_never_empty_letters_positive_witness:
  "reachable 2 \<lparr>braid = [1, 1, 1], counter = 0, out = [], emitted = []\<rparr> \<and>
   [1, 1, 1] \<noteq> ([] :: int list) \<and> list_all (\<lambda>x. 1 \<le> x) [1, 1, 1 :: int] \<and>
   pop_back [1, 1, 1] = Some [1, 1]"
  using braid_never_empty_letters_positive[OF reachable_after_one_step]
    reachable_after_one_step
  by (simp add: pop_back_def)

text \<open>
  Claim C3. The run with \<open>maxB1 = 2\<close> returns, and it emits the single word
  \<open>[1, 1, 1]\<close>, which is printed as \<open>aaa\<close>.
\<close>

theorem listBraids_genus_1:
  "listBraids 2 =
     Some \<lparr>braid = [2], counter = 1, out = ''aaa: 3 1 4 6 2'' @ newline,
           emitted = [[1, 1, 1]]\<rparr> \<and>
   printBraid [1, 1, 1] False = ''aaa''"
  by code_simp

text \<open>
  Claim C1 fails on the code. In the run with \<open>maxB1 = 6\<close> the 192nd iteration of the
  driver loop emits the word \<open>aabaabba\<close>. The test \<open>lexicoGood\<close> accepts it, because
  no suffix is smaller than the prefix of the same length, but its rotation \<open>aaabaabb\<close>
  is strictly smaller (and was emitted before).
\<close>

theorem emitted_word_not_minimal_rotation:
  "map_option (\<lambda>s. last (emitted s)) (listBraids_steps 192 6 listBraids_init) =
     Some [1, 1, 2, 1, 1, 2, 2, 1] \<and>
   lexicoGood [1, 1, 2, 1, 1, 2, 2, 1] = Some True \<and>
   rotate 7 [1, 1, 2, 1, 1, 2, 2, 1 :: int] = [1, 1, 1, 2, 1, 1, 2, 2] \<and>
   lexicographical_compare [1, 1, 1, 2, 1, 1, 2, 2] [1, 1, 2, 1, 1, 2, 2, 1]"
  by code_simp

lemma listBraids_0:
  "listBraids 0 = Some \<lparr>braid = [2], counter = 0, out = [], emitted = []\<rparr>"
  by code_simp

text \<open>
  Claim C5 as stated fails: with a single non-numeric argument, \<open>atoi\<close> yields 0 and
  the program announces genus 0 and runs the search with bound 0.
\<close>

theorem main_nonnumeric_argument_searches:
  "main [''lb'', ''abc''] =
     Some \<lparr>exit_code = 0, std_err = ''Working on genus 0.'' @ newline, std_out = [],
           searched = Some 0\<rparr>"
  by code_simp

text \<open>
  Claim C5, amended. When the number of arguments is not one, the program writes the usage
  message to the error stream and exits with code 0 without calling the search. When the
  single argument has no leading decimal number, the program reads it as genus 0: it writes
  \<open>Working on genus 0.\<close> to the error stream, runs the search with bound 0, which prints
  nothing, and exits with code 0.
\<close>

theorem main_usage_and_nonnumeric:
  "(length argv \<noteq> 2 \<longrightarrow>
      main argv =
        Some \<lparr>exit_code = 0,
              std_err = ''One positive integer as parameter required.'' @ newline,
              std_out = [], searched = None\<rparr>) \<and>
   (length argv = 2 \<and> atoi_digits (argv ! 1) = [] \<longrightarrow>
      main argv =
        Some \<lparr>exit_code = 0, std_err = ''Working on genus 0.'' @ newline,
              std_out = [], searched = Some 0\<rparr>)"
proof -
  have "atoi s = 0" if "atoi_digits s = []" for s
    using that by (simp add: atoi_def)
  moreover have "show_int 0 = ''0''"
    by code_simp
  ultimately show ?thesis
    by (simp add: main_def listBraids_0)
qed

theorem main_usage_and_nonnumeric_witness:
  "length [''lb''] \<noteq> 2 \<and>
   main [''lb''] =
     Some \<lparr>exit_code = 0,
           std_err = ''One positive integer as parameter required.'' @ newline,
           std_out = [], searched = None\<rparr> \<and>
   length [''lb'', ''x7''] = 2 \<and> atoi_digits ([''lb'', ''x7''] ! 1) = [] \<and>
   main [''lb'', ''x7''] =
     Some \<lparr>exit_code = 0, std_err = ''Working on genus 0.'' @ newline,
           std_out = [], searched = Some 0\<rparr>"
proof -
  have d: "atoi_digits ([''lb'', ''x7''] ! 1) = []"
    by code_simp
  show ?thesis
    using main_usage_and_nonnumeric[of "[''lb'']"]
      main_usage_and_nonnumeric[of "[''lb'', ''x7'']"] d
    by simp
qed


lemma completable_nonempty: "completable b m = Some c \<Longrightarrow> b \<noteq> []"
  by (auto simp: completable_def lexicoGood_def split: Option.bind_splits if_splits)

subsection \<open>Accepted words\<close>

lemma fold_max_ge_init: "a \<le> fold (\<lambda>x result. if x > result then x else result) b (a::int)"
proof (induction b arbitrary: a)
  case Nil
  show ?case by simp
next
  case (Cons x b)
  have "a \<le> (if x > a then x else a)" by simp
  also have "\<dots> \<le> fold (\<lambda>x result. if x > result then x else result) b (if x > a then x else a)"
    by (rule Cons.IH)
  finally show ?case by simp
qed

lemma fold_max_ge_elem:
  "x \<in> set b \<Longrightarrow> x \<le> fold (\<lambda>x result. if x > result then x else result) b (a::int)"
proof (induction b arbitrary: a)
  case Nil
  then show ?case by simp
next
  case (Cons y b)
  show ?case
  proof (cases "x = y")
    case True
    have "x \<le> (if y > a then y else a)" using True by simp
    also have "\<dots> \<le> fold (\<lambda>x result. if x > result then x else result) b (if y > a then y else a)"
      by (rule fold_max_ge_init)
    finally show ?thesis by simp
  next
    case False
    with Cons.prems have "x \<in> set b" by simp
    then show ?thesis using Cons.IH by simp
  qed
qed

lemma fold_max_in:
  "fold (\<lambda>x result. if x > result then x else result) b (a::int) \<in> insert a (set b)"
proof (induction b arbitrary: a)
  case Nil
  show ?case by simp
next
  case (Cons y b)
  have "fold (\<lambda>x result. if x > result then x else result) b (if y > a then y else a)
          \<in> insert (if y > a then y else a) (set b)"
    by (rule Cons.IH)
  then show ?case by (auto split: if_splits)
qed

lemma max_braid_ge_1: "1 \<le> max_braid b"
  unfolding max_braid_def by (rule fold_max_ge_init)

lemma max_braid_ge: "x \<in> set b \<Longrightarrow> x \<le> max_braid b"
  unfolding max_braid_def by (rule fold_max_ge_elem)

lemma max_braid_in: "max_braid b \<in> insert 1 (set b)"
  unfolding max_braid_def by (rule fold_max_in)

lemma sum_braid_sum_list: "sum_braid b = sum_list b"
proof -
  have "fold (\<lambda>x result. result + x) b a = a + sum_list b" for a
    by (induction b arbitrary: a) simp_all
  then show ?thesis by (simp add: sum_braid_def)
qed

lemma count_components_ge:
  assumes "count_components b cc cn i = Some k"
  shows "cc \<le> k"
proof (rule count_components.raw_induct
    [where P = "\<lambda>b cc cn i k. cc \<le> k", OF _ assms])
  fix f :: "int list \<Rightarrow> int \<Rightarrow> int list \<Rightarrow> nat \<Rightarrow> int option"
    and b' and cc' :: int and cn' :: "int list" and i' :: nat and k' :: int
  assume IH: "\<And>b cc cn i y. f b cc cn i = Some y \<Longrightarrow> cc \<le> y"
  assume body: "(if i' \<noteq> length cn' then
        Option.bind (label_component b' (cc' + 1) cn' (int i'))
          (\<lambda>(compNumber', j). f b' (cc' + 1) compNumber' (next_unlabelled compNumber' (nat j)))
      else Some cc') = Some k'"
  show "cc' \<le> k'"
  proof (cases "i' \<noteq> length cn'")
    case False
    with body show ?thesis by simp
  next
    case True
    with body obtain cn2 j where
      "f b' (cc' + 1) cn2 (next_unlabelled cn2 (nat j)) = Some k'"
      by (auto split: Option.bind_splits)
    from IH[OF this] show ?thesis by simp
  qed
qed

lemma numberOfComponents_ge_1:
  assumes "numberOfComponents b = Some k" "b \<noteq> []"
  shows "1 \<le> k"
proof -
  define cn where "cn = replicate (nat (max_braid b + 1)) (0::int)"
  have len: "0 \<noteq> length cn" using max_braid_ge_1[of b] by (simp add: cn_def)
  define F where "F = (\<lambda>r :: int list \<times> int. case r of (compNumber', i') \<Rightarrow>
             count_components b (0 + 1) compNumber' (next_unlabelled compNumber' (nat i')))"
  from assms have 1: "count_components b 0 cn 0 = Some k"
    by (simp add: numberOfComponents_def cn_def)
  have 2: "count_components b 0 cn 0 = Option.bind (label_component b (0 + 1) cn (int 0)) F"
    unfolding F_def using len by (subst count_components.simps) simp
  from 1 2 have "Option.bind (label_component b (0 + 1) cn (int 0)) F = Some k" by simp
  then obtain r where "F r = Some k"
    unfolding bind_eq_Some_conv by blast
  then obtain cn' i' where
      "count_components b (0 + 1) cn' (next_unlabelled cn' (nat i')) = Some k"
    unfolding F_def by (cases r) simp
  from count_components_ge[OF this] show ?thesis by simp
qed

lemma mark_column_nonneg:
  assumes "\<forall>x\<in>set m. 0 \<le> x"
  shows "\<forall>x\<in>set (mark_column tr i m). 0 \<le> x"
proof -
  have upd: "\<forall>x\<in>set (xs[k := 1]). 0 \<le> x" if "\<forall>x\<in>set xs. (0::int) \<le> x" for xs k
  proof
    fix x assume "x \<in> set (xs[k := 1])"
    then have "x \<in> insert 1 (set xs)" using set_update_subset_insert[of xs k 1] by blast
    with that show "0 \<le> x" by auto
  qed
  define m1 where "m1 = (if tr = 2 \<and> m ! (i - 1) = 0 then m[i - 1 := 1] else m)"
  have 1: "\<forall>x\<in>set m1. 0 \<le> x"
    unfolding m1_def using assms upd[OF assms] by simp
  have "mark_column tr i m = (if tr < 4 \<and> m1 ! i = 0 then m1[i := 1] else m1)"
    by (simp add: mark_column_def m1_def Let_def)
  then show ?thesis using 1 upd[OF 1] by simp
qed

lemma missing_loop_nonneg:
  assumes "missing_loop b is m = Some m'" "\<forall>x\<in>set m. 0 \<le> x"
  shows "\<forall>x\<in>set m'. 0 \<le> x"
  using assms
proof (induction "is" arbitrary: m)
  case Nil
  then show ?case by simp
next
  case (Cons i "is")
  from Cons.prems(1) have rec: "missing_loop b is (mark_column (twistRegions b (int i)) i m) = Some m'"
    by (simp add: Let_def split: if_splits)
  from Cons.IH[OF rec mark_column_nonneg[OF Cons.prems(2)]] show ?case .
qed

lemma missingCrossings_nonneg:
  assumes "missingCrossingsForPrimality b = Some k"
  shows "0 \<le> k"
proof -
  from assms obtain m' where
    m': "missing_loop b [1..<nat (max_braid b)] (replicate (nat (max_braid b)) 0) = Some m'"
    and k: "k = sum_braid m'"
    by (auto simp: missingCrossingsForPrimality_def Let_def)
  have "\<forall>x\<in>set m'. 0 \<le> x"
    by (rule missing_loop_nonneg[OF m']) simp
  then have "0 \<le> sum_list m'" by (simp add: sum_list_nonneg)
  then show ?thesis by (simp add: k sum_braid_sum_list)
qed

lemma int_of_bool_15:
  assumes "int_of_bool p + 2 * int_of_bool q + 4 * int_of_bool r + 8 * int_of_bool s = 15"
  shows "p \<and> q \<and> r \<and> s"
  using assms by (auto simp: int_of_bool_def split: if_splits)

lemma completable_15:
  assumes "completable b m = Some 15"
  obtains comps missing where
    "numberOfComponents b = Some comps" "missingCrossingsForPrimality b = Some missing"
    "comps - (m - b1 b) \<le> 1" "missing \<le> m - b1 b"
    "lexicoGood b = Some True" "reidemeister b = Some True"
proof -
  from assms obtain comps missing lex reid where
    c: "numberOfComponents b = Some comps" "missingCrossingsForPrimality b = Some missing"
       "lexicoGood b = Some lex" "reidemeister b = Some reid"
    and v: "int_of_bool (comps - (m - b1 b) \<le> 1) + 2 * int_of_bool (missing \<le> m - b1 b) +
         4 * int_of_bool lex + 8 * int_of_bool reid = 15"
    by (auto simp: completable_def split: Option.bind_splits)
  from int_of_bool_15[OF v] have "lex = True" "reid = True"
    "comps - (m - b1 b) \<le> 1" "missing \<le> m - b1 b" by simp_all
  with c show ?thesis by (intro that) simp_all
qed

lemma accepted_word:
  assumes "completable b m = Some 15" "\<not> b1 b < m"
  shows "numberOfComponents b = Some 1 \<and> b1 b = m \<and> missingCrossingsForPrimality b = Some 0"
proof -
  from assms(1) obtain comps missing where
    c: "numberOfComponents b = Some comps" "missingCrossingsForPrimality b = Some missing"
    "comps - (m - b1 b) \<le> 1" "missing \<le> m - b1 b"
    by (rule completable_15)
  have ne: "b \<noteq> []" using assms(1) by (rule completable_nonempty)
  have "0 \<le> missing" using c(2) by (rule missingCrossings_nonneg)
  with c(4) assms(2) have eq: "b1 b = m" and m0: "missing = 0" by linarith+
  have "1 \<le> comps" using c(1) ne by (rule numberOfComponents_ge_1)
  with c(3) eq have "comps = 1" by linarith
  with c eq m0 show ?thesis by simp
qed

lemma reachable_emitted:
  assumes "reachable m st" "w \<in> set (emitted st)"
  shows "1 < length w \<and> (\<forall>x\<in>set w. 1 \<le> x) \<and> \<not> lastLetterTooHigh w m \<and>
     completable w m = Some 15 \<and> \<not> b1 w < m"
  using assms
proof (induction rule: reachable.induct)
  case reachable_init
  then show ?case by (simp add: listBraids_init_def)
next
  case (reachable_step st st')
  note r = \<open>reachable m st\<close> and len = \<open>1 < length (braid st)\<close>
    and stp = \<open>listBraids_step m st = Some st'\<close> and mem = \<open>w \<in> set (emitted st')\<close>
  from stp show ?case
  proof (cases rule: step_cases)
    case (backtrack b')
    from mem have "w \<in> set (emitted st)" unfolding backtrack(4) .
    then show ?thesis by (rule reachable_step.IH)
  next
    case (increase c)
    from mem have "w \<in> set (emitted st)" unfolding increase(5) .
    then show ?thesis by (rule reachable_step.IH)
  next
    case append
    from mem have "w \<in> set (emitted st)" unfolding append(5) .
    then show ?thesis by (rule reachable_step.IH)
  next
    case (emit r)
    from mem have "w \<in> set (emitted st) \<or> w = braid st" unfolding emit(6) by auto
    then show ?thesis
    proof
      assume "w \<in> set (emitted st)"
      then show ?thesis by (rule reachable_step.IH)
    next
      assume w: "w = braid st"
      have "\<forall>x\<in>set (braid st). 1 \<le> x"
        using reachable_positive[OF r] by simp
      then show ?thesis unfolding w using emit(1,2,3) len by blast
    qed
  qed
qed

lemma listBraids_loop_reachable:
  assumes "listBraids_loop m st = Some st'"
  shows "reachable m st \<longrightarrow> reachable m st'"
proof (rule listBraids_loop.raw_induct
    [where P = "\<lambda>m st st'. reachable m st \<longrightarrow> reachable m st'", OF _ assms])
  fix f maxB1 s final
  assume IH: "\<And>m s y. f m s = Some y \<Longrightarrow> reachable m s \<longrightarrow> reachable m y"
  assume body: "(if 1 < length (braid s) then Option.bind (listBraids_step maxB1 s) (f maxB1)
                 else Some s) = Some final"
  show "reachable maxB1 s \<longrightarrow> reachable maxB1 final"
  proof
    assume r: "reachable maxB1 s"
    show "reachable maxB1 final"
    proof (cases "1 < length (braid s)")
      case False
      with body r show ?thesis by simp
    next
      case True
      with body obtain st1 where s: "listBraids_step maxB1 s = Some st1"
        and l: "f maxB1 st1 = Some final"
        by (auto split: Option.bind_splits)
      from r True s have "reachable maxB1 st1" by (rule reachable_step)
      with IH[OF l] show ?thesis by simp
    qed
  qed
qed

lemma listBraids_reachable: "listBraids m = Some st \<Longrightarrow> reachable m st"
  unfolding listBraids_def using listBraids_loop_reachable reachable_init by blast

text \<open>
  Claim C2. Every word emitted by a run of the driver with a bound \<open>maxB1 \<ge> 0\<close> closes to
  one component (\<open>numberOfComponents\<close> returns 1) and has first Betti number exactly
  \<open>maxB1\<close>.
\<close>

theorem emitted_is_knot_of_exact_b1:
  "0 \<le> maxB1 \<Longrightarrow> listBraids maxB1 = Some st \<Longrightarrow> w \<in> set (emitted st) \<Longrightarrow>
     numberOfComponents w = Some 1 \<and> b1 w = maxB1"
proof -
  assume a: "listBraids maxB1 = Some st" and b: "w \<in> set (emitted st)"
  have r: "reachable maxB1 st" using a by (rule listBraids_reachable)
  from reachable_emitted[OF r b] have c: "completable w maxB1 = Some 15" and d: "\<not> b1 w < maxB1"
    by simp_all
  from accepted_word[OF c d] show ?thesis by simp
qed

lemma listBraids_2:
  "listBraids 2 =
     Some \<lparr>braid = [2], counter = 1, out = ''aaa: 3 1 4 6 2'' @ newline,
           emitted = [[1, 1, 1]]\<rparr>"
  by code_simp

theorem emitted_is_knot_of_exact_b1_witness:
  "(0 :: int) \<le> 2 \<and>
   listBraids 2 =
     Some \<lparr>braid = [2], counter = 1, out = ''aaa: 3 1 4 6 2'' @ newline,
           emitted = [[1, 1, 1]]\<rparr> \<and>
   numberOfComponents [1, 1, 1] = Some 1 \<and> b1 [1, 1, 1] = 2"
  using emitted_is_knot_of_exact_b1[OF _ listBraids_2, of "[1, 1, 1]"] listBraids_2
  by simp

subsection \<open>Twist regions and generator coverage\<close>

lemma twist_scan_bound_low:
  "snd (fold (twist_scan i) b (lst, t))
     \<le> t + 2 * int (count_list b i) + (if lst = i + 1 then 0 else 1)"
proof (induction b arbitrary: lst t)
  case Nil
  show ?case by simp
next
  case (Cons j b)
  show ?case
  proof (cases "(j = i \<or> j = i + 1) \<and> j \<noteq> lst")
    case True
    then have s: "twist_scan i j (lst, t) = (j, t + 1)" by (simp add: twist_scan_def)
    from Cons.IH[of j "t + 1"] True show ?thesis
      by (auto simp: s split: if_splits)
  next
    case False
    then have s: "twist_scan i j (lst, t) = (lst, t)" by (auto simp: twist_scan_def)
    from Cons.IH[of lst t] False show ?thesis
      by (auto simp: s split: if_splits)
  qed
qed

lemma twist_scan_bound_high:
  "snd (fold (twist_scan i) b (lst, t))
     \<le> t + 2 * int (count_list b (i + 1)) + (if lst = i then 0 else 1)"
proof (induction b arbitrary: lst t)
  case Nil
  show ?case by simp
next
  case (Cons j b)
  show ?case
  proof (cases "(j = i \<or> j = i + 1) \<and> j \<noteq> lst")
    case True
    then have s: "twist_scan i j (lst, t) = (j, t + 1)" by (simp add: twist_scan_def)
    from Cons.IH[of j "t + 1"] True show ?thesis
      by (auto simp: s split: if_splits)
  next
    case False
    then have s: "twist_scan i j (lst, t) = (lst, t)" by (auto simp: twist_scan_def)
    from Cons.IH[of lst t] False show ?thesis
      by (auto simp: s split: if_splits)
  qed
qed

lemma twistRegions_4_counts:
  assumes "4 \<le> twistRegions b i"
  shows "2 \<le> count_list b i" "2 \<le> count_list b (i + 1)"
proof -
  from twist_scan_bound_low[of i b "- 1" 0] assms
  have "4 \<le> 2 * int (count_list b i) + 1"
    by (simp add: twistRegions_def split: if_splits)
  then show "2 \<le> count_list b i" by linarith
  from twist_scan_bound_high[of i b "- 1" 0] assms
  have "4 \<le> 2 * int (count_list b (i + 1)) + 1"
    by (simp add: twistRegions_def split: if_splits)
  then show "2 \<le> count_list b (i + 1)" by linarith
qed

lemma mark_column_length: "length (mark_column tr i m) = length m"
  by (simp add: mark_column_def Let_def)

lemma update_one_keeps:
  assumes "xs ! k \<noteq> (0::int)" "k < length xs"
  shows "xs[j := 1] ! k \<noteq> 0"
  using assms by (cases "j = k") simp_all

lemma mark_column_keeps:
  assumes "m ! k \<noteq> 0" "k < length m"
  shows "mark_column tr i m ! k \<noteq> 0"
proof -
  define m1 where "m1 = (if tr = 2 \<and> m ! (i - 1) = 0 then m[i - 1 := 1] else m)"
  have 1: "m1 ! k \<noteq> 0" "k < length m1"
    unfolding m1_def using assms update_one_keeps[OF assms] by simp_all
  have "mark_column tr i m = (if tr < 4 \<and> m1 ! i = 0 then m1[i := 1] else m1)"
    by (simp add: mark_column_def m1_def Let_def)
  then show ?thesis using 1 update_one_keeps[OF 1] by simp
qed

lemma mark_column_marks:
  assumes "tr < 4" "i < length m"
  shows "mark_column tr i m ! i \<noteq> 0"
  using assms by (auto simp: mark_column_def Let_def nth_list_update)

lemma missing_loop_length:
  "missing_loop b is m = Some m' \<Longrightarrow> length m' = length m"
proof (induction "is" arbitrary: m)
  case Nil
  then show ?case by simp
next
  case (Cons i "is")
  from Cons.prems have "missing_loop b is (mark_column (twistRegions b (int i)) i m) = Some m'"
    by (simp add: Let_def split: if_splits)
  from Cons.IH[OF this] show ?case by (simp add: mark_column_length)
qed

lemma missing_loop_keeps:
  "missing_loop b is m = Some m' \<Longrightarrow> m ! k \<noteq> 0 \<Longrightarrow> k < length m \<Longrightarrow> m' ! k \<noteq> 0"
proof (induction "is" arbitrary: m)
  case Nil
  then show ?case by simp
next
  case (Cons i "is")
  let ?m = "mark_column (twistRegions b (int i)) i m"
  from Cons.prems(1) have r: "missing_loop b is ?m = Some m'"
    by (simp add: Let_def split: if_splits)
  have "?m ! k \<noteq> 0" using Cons.prems(2,3) by (rule mark_column_keeps)
  moreover have "k < length ?m" using Cons.prems(3) by (simp add: mark_column_length)
  ultimately show ?case using Cons.IH[OF r] by blast
qed

lemma missing_loop_marks:
  "missing_loop b is m = Some m' \<Longrightarrow> i \<in> set is \<Longrightarrow> i < length m \<Longrightarrow>
     twistRegions b (int i) < 4 \<Longrightarrow> m' ! i \<noteq> 0"
proof (induction "is" arbitrary: m)
  case Nil
  then show ?case by simp
next
  case (Cons j "is")
  let ?m = "mark_column (twistRegions b (int j)) j m"
  from Cons.prems(1) have r: "missing_loop b is ?m = Some m'"
    by (simp add: Let_def split: if_splits)
  have len: "i < length ?m" using Cons.prems(3) by (simp add: mark_column_length)
  show ?case
  proof (cases "i = j")
    case True
    have nz: "?m ! i \<noteq> 0" unfolding True[symmetric]
      using Cons.prems(4,3) by (rule mark_column_marks)
    show ?thesis by (rule missing_loop_keeps[OF r nz len])
  next
    case False
    with Cons.prems(2) have "i \<in> set is" by simp
    from Cons.IH[OF r this len Cons.prems(4)] show ?thesis .
  qed
qed

lemma sum_list_zero_nonneg:
  assumes "sum_list xs = (0::int)" "\<forall>x\<in>set xs. 0 \<le> x" "k < length xs"
  shows "xs ! k = 0"
proof -
  have "xs ! k \<in> set xs" using assms(3) by simp
  then have "xs ! k \<le> sum_list xs"
    using assms(2) by (meson member_le_sum_list)
  with assms(1,2) \<open>xs ! k \<in> set xs\<close> show ?thesis by force
qed

lemma no_missing_crossings:
  assumes "missingCrossingsForPrimality b = Some 0" "1 \<le> i" "int i < max_braid b"
  shows "4 \<le> twistRegions b (int i)"
proof (rule ccontr)
  assume "\<not> 4 \<le> twistRegions b (int i)"
  then have tr: "twistRegions b (int i) < 4" by simp
  let ?c = "nat (max_braid b)"
  from assms(1) obtain m' where
    m': "missing_loop b [1..<?c] (replicate ?c 0) = Some m'"
    and k: "sum_braid m' = 0"
    by (auto simp: missingCrossingsForPrimality_def Let_def)
  have i: "i \<in> set [1..<?c]" "i < length (replicate ?c (0::int))"
    using assms(2,3) by auto
  from missing_loop_marks[OF m' i tr] have nz: "m' ! i \<noteq> 0" .
  have len: "i < length m'" using missing_loop_length[OF m'] i(2) by simp
  have "\<forall>x\<in>set m'. 0 \<le> x"
    by (rule missing_loop_nonneg[OF m']) simp
  with k len have "m' ! i = 0"
    by (simp add: sum_braid_sum_list sum_list_zero_nonneg)
  with nz show False by simp
qed

lemma all_ones_count:
  assumes "\<forall>x\<in>set w. x = g"
  shows "count_list w g = length w"
  using assms by (induction w) auto

lemma accepted_word_letters_twice:
  assumes "completable w m = Some 15" "\<not> b1 w < m" "1 < length w" "\<forall>x\<in>set w. 1 \<le> x"
    "g \<in> set w"
  shows "2 \<le> count_list w g"
proof -
  from accepted_word[OF assms(1,2)] have mc: "missingCrossingsForPrimality w = Some 0"
    by simp
  have g1: "1 \<le> g" using assms(4,5) by simp
  have gm: "g \<le> max_braid w" using assms(5) by (rule max_braid_ge)
  consider (one) "max_braid w = 1" | (low) "g < max_braid w" | (top) "g = max_braid w" "1 < g"
    using g1 gm by linarith
  then show ?thesis
  proof cases
    case one
    have "\<forall>x\<in>set w. x = g"
    proof
      fix x assume x: "x \<in> set w"
      then have "x \<le> 1" using max_braid_ge[of x w] one by simp
      moreover have "1 \<le> x" using assms(4) x by simp
      ultimately show "x = g" using g1 gm one by simp
    qed
    then have "count_list w g = length w" by (rule all_ones_count)
    with assms(3) show ?thesis by simp
  next
    case low
    have "4 \<le> twistRegions w (int (nat g))"
      by (rule no_missing_crossings[OF mc]) (use g1 low in auto)
    then have "4 \<le> twistRegions w g" using g1 by simp
    then show ?thesis by (rule twistRegions_4_counts)
  next
    case top
    have "4 \<le> twistRegions w (int (nat (g - 1)))"
      by (rule no_missing_crossings[OF mc]) (use top in auto)
    then have "4 \<le> twistRegions w (g - 1)" using top by simp
    from twistRegions_4_counts(2)[OF this] show ?thesis by simp
  qed
qed

text \<open>
  Claim C7. Every generator that occurs in an emitted word occurs in it at least twice:
  an accepted word has no missing crossing, so every pair of neighbouring columns has at
  least four twist regions, and a word on one column has at least two letters.
\<close>

theorem emitted_generators_twice:
  "listBraids maxB1 = Some st \<Longrightarrow> w \<in> set (emitted st) \<Longrightarrow> g \<in> set w \<Longrightarrow>
     2 \<le> count_list w g"
proof -
  assume a: "listBraids maxB1 = Some st" and b: "w \<in> set (emitted st)" and c: "g \<in> set w"
  have r: "reachable maxB1 st" using a by (rule listBraids_reachable)
  from reachable_emitted[OF r b] have
    "completable w maxB1 = Some 15" "\<not> b1 w < maxB1" "1 < length w" "\<forall>x\<in>set w. 1 \<le> x"
    by simp_all
  then show ?thesis using c by (rule accepted_word_letters_twice)
qed

theorem emitted_generators_twice_witness:
  "listBraids 2 =
     Some \<lparr>braid = [2], counter = 1, out = ''aaa: 3 1 4 6 2'' @ newline,
           emitted = [[1, 1, 1]]\<rparr> \<and>
   (2 :: nat) \<le> count_list [1, 1, 1 :: int] 1"
  using emitted_generators_twice[OF listBraids_2, of "[1, 1, 1]" 1] listBraids_2
  by simp

subsection \<open>The strand permutation and its cycles\<close>

lemma strand_step_transposition: "strand_step = transposition"
  by (intro ext) (auto simp: strand_step_def transposition_def)

lemma follow_induced: "follow b = induced_permutation b"
  by (rule ext) (simp add: follow_def induced_permutation_def strand_step_transposition)

lemma strand_step_involution: "strand_step j (strand_step j p) = p"
  by (auto simp: strand_step_def)

lemma inj_strand_step: "inj (strand_step j)"
  by (rule inj_on_inverseI[where g = "strand_step j"]) (rule strand_step_involution)

lemma inj_follow: "inj (follow b)"
proof -
  have "inj (fold strand_step b)"
  proof (induction b)
    case Nil
    show ?case by simp
  next
    case (Cons j b)
    show ?case unfolding fold.simps
      by (rule inj_compose[OF Cons inj_strand_step])
  qed
  then show ?thesis unfolding follow_def[abs_def] .
qed

lemma strand_step_range:
  assumes "1 \<le> j" "j \<le> M" "1 \<le> p" "p \<le> M + 1"
  shows "1 \<le> strand_step j p \<and> strand_step j p \<le> M + 1"
  using assms by (auto simp: strand_step_def)

lemma fold_strand_step_range:
  assumes "\<forall>j\<in>set b. 1 \<le> j \<and> j \<le> M" "1 \<le> p" "p \<le> M + 1"
  shows "1 \<le> fold strand_step b p \<and> fold strand_step b p \<le> M + 1"
  using assms
proof (induction b arbitrary: p)
  case Nil
  then show ?case by simp
next
  case (Cons j b)
  have "1 \<le> strand_step j p \<and> strand_step j p \<le> M + 1"
    using Cons.prems by (intro strand_step_range) simp_all
  with Cons.IH[of "strand_step j p"] Cons.prems(1) show ?case by simp
qed

lemma inj_next_index: "inj (next_index b)"
proof (rule injI)
  fix x y assume "next_index b x = next_index b y"
  then have "follow b (x + 1) = follow b (y + 1)" by (simp add: next_index_def)
  then have "x + 1 = y + 1" using inj_follow by (simp add: inj_eq)
  then show "x = y" by simp
qed

lemma next_index_range:
  assumes "\<forall>j\<in>set b. 1 \<le> j" "0 \<le> i" "i \<le> max_braid b"
  shows "0 \<le> next_index b i \<and> next_index b i \<le> max_braid b"
proof -
  have "\<forall>j\<in>set b. 1 \<le> j \<and> j \<le> max_braid b"
    using assms(1) max_braid_ge by blast
  from fold_strand_step_range[OF this, of "i + 1"] assms(2,3)
  show ?thesis by (simp add: next_index_def follow_def)
qed

text \<open>Iterating an injective map inside a finite set comes back to the start.\<close>

lemma funpow_inj: "inj (f :: 'a \<Rightarrow> 'a) \<Longrightarrow> inj (f ^^ k)"
proof (induction k)
  case 0
  show ?case by simp
next
  case (Suc k)
  show ?case unfolding funpow.simps
    by (rule inj_compose[OF Suc.prems Suc.IH[OF Suc.prems]])
qed

lemma funpow_closed:
  fixes f :: "'a \<Rightarrow> 'a"
  assumes "f ` I \<subseteq> I" "x \<in> I"
  shows "(f ^^ k) x \<in> I"
  using assms by (induction k) auto

lemma returns_to_start:
  fixes f :: "'a \<Rightarrow> 'a"
  assumes "inj f" "finite I" "f ` I \<subseteq> I" "x \<in> I"
  shows "\<exists>p. 0 < p \<and> p \<le> card I \<and> (f ^^ p) x = x"
proof -
  let ?h = "\<lambda>k. (f ^^ k) x"
  have sub: "?h ` {..card I} \<subseteq> I" using funpow_closed[OF assms(3,4)] by blast
  have "card (?h ` {..card I}) \<le> card I" using sub assms(2) by (rule card_mono[rotated])
  then have "card (?h ` {..card I}) < card {..card I}" by simp
  then have "\<not> inj_on ?h {..card I}" by (metis card_image less_irrefl)
  then obtain i j where ij: "i \<le> card I" "j \<le> card I" "i \<noteq> j" "?h i = ?h j"
    by (auto simp: inj_on_def)
  have main: "\<exists>p. 0 < p \<and> p \<le> card I \<and> (f ^^ p) x = x"
    if "a < c" "c \<le> card I" "(f ^^ a) x = (f ^^ c) x" for a c
  proof -
    have "(f ^^ c) x = (f ^^ a) ((f ^^ (c - a)) x)"
      using that(1) by (metis add_diff_inverse_nat funpow_add less_imp_le_nat not_less o_apply)
    with that(3) have "(f ^^ a) x = (f ^^ a) ((f ^^ (c - a)) x)" by simp
    then have "(f ^^ (c - a)) x = x" using funpow_inj[OF assms(1), of a] by (simp add: inj_eq)
    with that(1,2) show ?thesis by (intro exI[of _ "c - a"]) simp
  qed
  show ?thesis
  proof (cases "i < j")
    case True
    then show ?thesis using main[of i j] ij by simp
  next
    case False
    with ij(3) have "j < i" by simp
    then show ?thesis using main[of j i] ij by simp
  qed
qed

lemma funpow_period:
  fixes f :: "'a \<Rightarrow> 'a"
  assumes "(f ^^ p) x = x"
  shows "(f ^^ (k * p)) x = x"
proof (induction k)
  case 0
  show ?case by simp
next
  case (Suc k)
  have "Suc k * p = k * p + p" by simp
  then have "(f ^^ (Suc k * p)) x = (f ^^ (k * p)) ((f ^^ p) x)"
    by (simp only: funpow_add o_apply)
  then show ?case using assms Suc by simp
qed

lemma funpow_mod_period:
  fixes f :: "'a \<Rightarrow> 'a"
  assumes "(f ^^ p) x = x" "0 < p"
  shows "(f ^^ k) x = (f ^^ (k mod p)) x"
proof -
  have "k = k mod p + (k div p) * p" by simp
  then have "(f ^^ k) x = (f ^^ (k mod p)) ((f ^^ ((k div p) * p)) x)"
    by (metis funpow_add o_apply)
  then show ?thesis using funpow_period[OF assms(1)] by simp
qed

lemma cycle_of_period:
  assumes "(f ^^ p) x = x" "0 < p"
  shows "cycle_of f x = (\<lambda>k. (f ^^ k) x) ` {..<p}"
proof
  show "cycle_of f x \<subseteq> (\<lambda>k. (f ^^ k) x) ` {..<p}"
  proof
    fix y assume "y \<in> cycle_of f x"
    then obtain k where "y = (f ^^ k) x" by (auto simp: cycle_of_def)
    then have "y = (f ^^ (k mod p)) x" using funpow_mod_period[OF assms] by simp
    moreover have "k mod p < p" using assms(2) by simp
    ultimately show "y \<in> (\<lambda>k. (f ^^ k) x) ` {..<p}" by blast
  qed
  show "(\<lambda>k. (f ^^ k) x) ` {..<p} \<subseteq> cycle_of f x" by (auto simp: cycle_of_def)
qed

lemma cycle_of_self: "x \<in> cycle_of f x"
  unfolding cycle_of_def by (rule range_eqI[of _ _ 0]) simp

lemma cycle_of_step_subset:
  assumes "y \<in> cycle_of f x"
  shows "cycle_of f y \<subseteq> cycle_of f x"
proof
  from assms obtain k where k: "y = (f ^^ k) x" by (auto simp: cycle_of_def)
  fix z assume "z \<in> cycle_of f y"
  then obtain l where "z = (f ^^ l) y" by (auto simp: cycle_of_def)
  then have "z = (f ^^ (l + k)) x" using k by (simp add: funpow_add)
  then show "z \<in> cycle_of f x" by (auto simp: cycle_of_def)
qed

lemma cycle_of_eq:
  assumes "inj f" "finite I" "f ` I \<subseteq> I" "x \<in> I" "y \<in> cycle_of f x"
  shows "cycle_of f y = cycle_of f x"
proof
  show "cycle_of f y \<subseteq> cycle_of f x" using assms(5) by (rule cycle_of_step_subset)
  from assms(5) obtain k where k: "y = (f ^^ k) x" by (auto simp: cycle_of_def)
  from returns_to_start[OF assms(1-4)] obtain p where p: "0 < p" "(f ^^ p) x = x" by blast
  have "(f ^^ (k * p)) x = x" using p(2) by (rule funpow_period)
  moreover have "k \<le> k * p" using p(1) by simp
  then have "(f ^^ (k * p)) x = (f ^^ (k * p - k)) ((f ^^ k) x)"
    by (metis add_diff_inverse_nat funpow_add not_less o_apply add.commute)
  ultimately have "x = (f ^^ (k * p - k)) y" using k by simp
  then have "x \<in> cycle_of f y" by (auto simp: cycle_of_def)
  then show "cycle_of f x \<subseteq> cycle_of f y" by (rule cycle_of_step_subset)
qed

lemma cycle_of_subset:
  assumes "f ` I \<subseteq> I" "x \<in> I"
  shows "cycle_of f x \<subseteq> I"
  using funpow_closed[OF assms] by (auto simp: cycle_of_def)

lemma labelled_update:
  assumes "cc \<noteq> 0" "0 \<le> i" "i < int (length cn)"
  shows "labelled (cn[nat i := cc]) = insert i (labelled cn)"
proof -
  have "(cn[nat i := cc]) ! nat j \<noteq> 0 \<longleftrightarrow> j = i \<or> cn ! nat j \<noteq> 0"
    if "0 \<le> j" "j < int (length cn)" for j
  proof (cases "j = i")
    case True
    with assms show ?thesis by simp
  next
    case False
    with that assms(2) have "nat i \<noteq> nat j" by simp
    with False show ?thesis by simp
  qed
  then show ?thesis using assms(2,3) by (auto simp: labelled_def)
qed

lemma label_component_cycle:
  assumes inj: "inj (next_index b)"
    and closed: "next_index b ` {0..<int n} \<subseteq> {0..<int n}"
    and cc: "cc \<noteq> 0" and i0: "i0 \<in> {0..<int n}"
    and per: "(next_index b ^^ p) i0 = i0" "0 < p"
    and disj: "L \<inter> cycle_of (next_index b) i0 = {}"
  shows "d = p - m \<Longrightarrow> m \<le> p \<Longrightarrow> length cn = n \<Longrightarrow>
    labelled cn = L \<union> (\<lambda>k. (next_index b ^^ k) i0) ` {..<m} \<Longrightarrow>
    (\<forall>k. 0 < k \<and> k < m \<longrightarrow> (next_index b ^^ k) i0 \<noteq> i0) \<Longrightarrow>
    \<exists>cn'. label_component b cc cn ((next_index b ^^ m) i0) = Some (cn', i0) \<and>
          length cn' = n \<and> labelled cn' = L \<union> cycle_of (next_index b) i0"
proof (induction d arbitrary: m cn rule: less_induct)
  case (less d)
  let ?g = "next_index b"
  let ?i = "(?g ^^ m) i0"
  note len = \<open>length cn = n\<close>
  note lab = \<open>labelled cn = L \<union> (\<lambda>k. (?g ^^ k) i0) ` {..<m}\<close>
  note first = \<open>\<forall>k. 0 < k \<and> k < m \<longrightarrow> (?g ^^ k) i0 \<noteq> i0\<close>
  have iI: "?i \<in> {0..<int n}" using closed i0 by (rule funpow_closed)
  then have rng: "\<not> (?i < 0 \<or> int (length cn) \<le> ?i)" using len by simp
  have icyc: "?i \<in> cycle_of ?g i0" by (auto simp: cycle_of_def)
  have i0_lab: "i0 \<in> labelled cn" if "0 < m"
  proof -
    have "(?g ^^ 0) i0 \<in> (\<lambda>k. (?g ^^ k) i0) ` {..<m}" using that by blast
    then show ?thesis using lab by simp
  qed
  show ?case
  proof (cases "cn ! nat ?i = 0")
    case False
    then have "?i \<in> labelled cn" using iI len by (simp add: labelled_def)
    moreover have "?i \<notin> L" using icyc disj by blast
    ultimately obtain k where k: "k < m" "(?g ^^ k) i0 = ?i" using lab by auto
    have "(?g ^^ m) i0 = (?g ^^ k) ((?g ^^ (m - k)) i0)"
      using k(1) by (metis add_diff_inverse_nat funpow_add less_imp_le_nat not_less o_apply)
    with k(2) have "(?g ^^ k) i0 = (?g ^^ k) ((?g ^^ (m - k)) i0)" by simp
    then have ret0: "(?g ^^ (m - k)) i0 = i0"
      using funpow_inj[OF inj, of k] by (simp add: inj_eq)
    have "k = 0"
    proof (rule ccontr)
      assume "k \<noteq> 0"
      then have "0 < m - k \<and> m - k < m" using k(1) by simp
      with first ret0 show False by blast
    qed
    with ret0 have ret: "?i = i0" by simp
    have "0 < m" using k(1) by simp
    with ret have "cycle_of ?g i0 = (\<lambda>k. (?g ^^ k) i0) ` {..<m}"
      by (intro cycle_of_period) simp_all
    with lab have "labelled cn = L \<union> cycle_of ?g i0" by simp
    moreover have "label_component b cc cn ?i = Some (cn, i0)"
      using False rng ret by (subst label_component.simps) simp
    ultimately show ?thesis using len by blast
  next
    case True
    then have notlab: "?i \<notin> labelled cn" by (simp add: labelled_def)
    have ne: "?i \<noteq> i0" if "0 < m" using i0_lab[OF that] notlab by auto
    have "m \<noteq> p"
    proof
      assume "m = p"
      with per have "?i = i0" "0 < m" by simp_all
      with ne show False by blast
    qed
    with \<open>m \<le> p\<close> have mp: "Suc m \<le> p" by simp
    let ?cn = "cn[nat ?i := cc]"
    have lab': "labelled ?cn = L \<union> (\<lambda>k. (?g ^^ k) i0) ` {..<Suc m}"
    proof -
      have "labelled ?cn = insert ?i (labelled cn)"
        using cc iI len by (intro labelled_update) simp_all
      then show ?thesis using lab by (auto simp: lessThan_Suc)
    qed
    have first': "\<forall>k. 0 < k \<and> k < Suc m \<longrightarrow> (?g ^^ k) i0 \<noteq> i0"
    proof (intro allI impI)
      fix k assume k: "0 < k \<and> k < Suc m"
      show "(?g ^^ k) i0 \<noteq> i0"
      proof (cases "k = m")
        case True
        with k ne show ?thesis by simp
      next
        case False
        with k first show ?thesis by simp
      qed
    qed
    have "p - Suc m < d" using less.prems(1) mp by simp
    from less.IH[OF this refl mp _ lab' first'] len
    obtain cn' where cn': "label_component b cc ?cn ((?g ^^ Suc m) i0) = Some (cn', i0)"
      "length cn' = n" "labelled cn' = L \<union> cycle_of ?g i0"
      by auto
    have "label_component b cc cn ?i = label_component b cc ?cn (?g ?i)"
      using True rng by (subst label_component.simps) simp
    with cn' show ?thesis by simp
  qed
qed

lemma next_unlabelled_props:
  assumes "i \<le> length cn"
  shows "i \<le> next_unlabelled cn i \<and> next_unlabelled cn i \<le> length cn \<and>
         (\<forall>j. i \<le> j \<and> j < next_unlabelled cn i \<longrightarrow> cn ! j \<noteq> 0) \<and>
         (next_unlabelled cn i < length cn \<longrightarrow> cn ! next_unlabelled cn i = 0)"
  using assms
proof (induction cn i rule: next_unlabelled.induct)
  case (1 cn i)
  show ?case
  proof (cases "i < length cn \<and> cn ! i \<noteq> 0")
    case False
    then have "next_unlabelled cn i = i"
      using next_unlabelled.simps[of cn i] by auto
    with False "1.prems" show ?thesis by auto
  next
    case True
    then have eq: "next_unlabelled cn i = next_unlabelled cn (i + 1)"
      using next_unlabelled.simps[of cn i] by auto
    from True have "i + 1 \<le> length cn" by simp
    from "1.IH"[OF True this] have IH:
      "i + 1 \<le> next_unlabelled cn (i + 1)" "next_unlabelled cn (i + 1) \<le> length cn"
      "\<forall>j. i + 1 \<le> j \<and> j < next_unlabelled cn (i + 1) \<longrightarrow> cn ! j \<noteq> 0"
      "next_unlabelled cn (i + 1) < length cn \<longrightarrow> cn ! next_unlabelled cn (i + 1) = 0"
      by simp_all
    have "cn ! j \<noteq> 0" if "i \<le> j" "j < next_unlabelled cn (i + 1)" for j
    proof (cases "j = i")
      case True
      with \<open>i < length cn \<and> cn ! i \<noteq> 0\<close> show ?thesis by simp
    next
      case False
      with that IH(3) show ?thesis by simp
    qed
    with IH show ?thesis unfolding eq by auto
  qed
qed

lemma cycles_cover:
  fixes g :: "int \<Rightarrow> int"
  assumes inj: "inj g" and fin: "finite I" and closed: "g ` I \<subseteq> I"
    and C: "C \<subseteq> cycles g I" and cover: "\<Union>C = I"
  shows "C = cycles g I"
proof
  show "C \<subseteq> cycles g I" by (rule C)
  show "cycles g I \<subseteq> C"
  proof
    fix c assume "c \<in> cycles g I"
    then obtain x where x: "x \<in> I" "c = cycle_of g x" by (auto simp: cycles_def)
    with cover obtain c' where c': "c' \<in> C" "x \<in> c'" by blast
    with C obtain y where y: "y \<in> I" "c' = cycle_of g y" by (auto simp: cycles_def)
    have "cycle_of g x = cycle_of g y"
      using inj fin closed y(1) c'(2)[unfolded y(2)] by (rule cycle_of_eq)
    with x y c' show "c \<in> C" by simp
  qed
qed

lemma cycle_fresh:
  fixes g :: "int \<Rightarrow> int"
  assumes inj: "inj g" and fin: "finite I" and closed: "g ` I \<subseteq> I"
    and C: "C \<subseteq> cycles g I" and i0: "i0 \<in> I" "i0 \<notin> \<Union>C"
  shows "\<Union>C \<inter> cycle_of g i0 = {}"
proof (rule ccontr)
  assume "\<Union>C \<inter> cycle_of g i0 \<noteq> {}"
  then obtain x c' where x: "x \<in> cycle_of g i0" "c' \<in> C" "x \<in> c'" by blast
  with C obtain y where y: "y \<in> I" "c' = cycle_of g y" by (auto simp: cycles_def)
  have 1: "cycle_of g x = cycle_of g y"
    using inj fin closed y(1) x(3)[unfolded y(2)] by (rule cycle_of_eq)
  have 2: "cycle_of g x = cycle_of g i0"
    using inj fin closed i0(1) x(1) by (rule cycle_of_eq)
  have "i0 \<in> cycle_of g i0" by (rule cycle_of_self)
  with 1 2 y(2) have "i0 \<in> c'" by simp
  with x(2) i0(2) show False by blast
qed

lemma count_components_cycles:
  assumes inj: "inj (next_index b)"
    and closed: "next_index b ` {0..<int n} \<subseteq> {0..<int n}"
  shows "d = n - i \<Longrightarrow> i \<le> n \<Longrightarrow> length cn = n \<Longrightarrow> 0 \<le> cc \<Longrightarrow>
     labelled cn = \<Union>C \<Longrightarrow> C \<subseteq> cycles (next_index b) {0..<int n} \<Longrightarrow>
     int (card C) = cc \<Longrightarrow> (\<forall>j<i. cn ! j \<noteq> 0) \<Longrightarrow> (i < n \<longrightarrow> cn ! i = 0) \<Longrightarrow>
     count_components b cc cn i = Some (int (card (cycles (next_index b) {0..<int n})))"
proof (induction d arbitrary: i cn cc C rule: less_induct)
  case (less d)
  let ?g = "next_index b"
  let ?I = "{0..<int n}"
  note len = \<open>length cn = n\<close>
  note lab = \<open>labelled cn = \<Union>C\<close>
  note sub = \<open>C \<subseteq> cycles ?g ?I\<close>
  note low = \<open>\<forall>j<i. cn ! j \<noteq> 0\<close>
  have fin: "finite ?I" by simp
  have finC: "finite C" using sub by (rule finite_subset) (simp add: cycles_def)
  show ?case
  proof (cases "i = n")
    case True
    have "labelled cn = ?I"
    proof -
      have "cn ! nat j \<noteq> 0" if "0 \<le> j" "j < int n" for j
        using low that True by simp
      then show ?thesis using len by (auto simp: labelled_def)
    qed
    with lab have "\<Union>C = ?I" by simp
    with inj fin closed sub have "C = cycles ?g ?I" by (rule cycles_cover)
    moreover have "count_components b cc cn i = Some cc"
      using True len by (subst count_components.simps) simp
    ultimately show ?thesis using \<open>int (card C) = cc\<close> by simp
  next
    case False
    with \<open>i \<le> n\<close> have iln: "i < n" by simp
    with less.prems(9) have zero: "cn ! i = 0" by simp
    let ?i0 = "int i"
    have i0: "?i0 \<in> ?I" using iln by simp
    have "?i0 \<notin> labelled cn" using zero by (simp add: labelled_def)
    with lab have fresh: "?i0 \<notin> \<Union>C" by simp
    from inj fin closed sub i0 fresh have disj: "\<Union>C \<inter> cycle_of ?g ?i0 = {}"
      by (rule cycle_fresh)
    from returns_to_start[OF inj fin closed i0] obtain p where
      p: "0 < p" "(?g ^^ p) ?i0 = ?i0" by blast
    have cc1: "cc + 1 \<noteq> 0" using \<open>0 \<le> cc\<close> by simp
    have lab0: "labelled cn = \<Union>C \<union> (\<lambda>k. (?g ^^ k) ?i0) ` {..<0::nat}" using lab by simp
    have first0: "\<forall>k. 0 < k \<and> k < (0::nat) \<longrightarrow> (?g ^^ k) ?i0 \<noteq> ?i0" by simp
    from label_component_cycle[OF inj closed cc1 i0 p(2) p(1) disj refl _ len lab0 first0]
    obtain cn' where cn': "label_component b (cc + 1) cn ?i0 = Some (cn', ?i0)"
      "length cn' = n" "labelled cn' = \<Union>C \<union> cycle_of ?g ?i0"
      by auto
    let ?i' = "next_unlabelled cn' i"
    have unfold: "count_components b cc cn i = count_components b (cc + 1) cn' ?i'"
      using False len cn'(1) by (subst count_components.simps) simp
    have "i \<le> length cn'" using iln cn'(2) by simp
    from next_unlabelled_props[OF this] have nu:
      "i \<le> ?i'" "?i' \<le> n" "\<forall>j. i \<le> j \<and> j < ?i' \<longrightarrow> cn' ! j \<noteq> 0"
      "?i' < n \<longrightarrow> cn' ! ?i' = 0"
      using cn'(2) by simp_all
    have mono: "cn' ! j \<noteq> 0" if "cn ! j \<noteq> 0" "j < n" for j
    proof -
      have "int j \<in> labelled cn" using that len by (simp add: labelled_def)
      then have "int j \<in> labelled cn'" using cn'(3) lab by simp
      then show ?thesis by (simp add: labelled_def)
    qed
    have "?i0 \<in> labelled cn'" using cn'(3) cycle_of_self[of ?i0 ?g] by simp
    then have "cn' ! i \<noteq> 0" by (simp add: labelled_def)
    with nu(4) iln have "?i' \<noteq> i" by auto
    with nu(1) have gt: "i < ?i'" by simp
    have low': "\<forall>j<?i'. cn' ! j \<noteq> 0"
    proof (intro allI impI)
      fix j assume j: "j < ?i'"
      show "cn' ! j \<noteq> 0"
      proof (cases "j < i")
        case True
        with low iln show ?thesis by (intro mono) simp_all
      next
        case False
        with j nu(3) show ?thesis by simp
      qed
    qed
    let ?C = "insert (cycle_of ?g ?i0) C"
    have labC: "labelled cn' = \<Union>?C" using cn'(3) by auto
    have subC: "?C \<subseteq> cycles ?g ?I" using sub i0 by (auto simp: cycles_def)
    have "cycle_of ?g ?i0 \<notin> C" using fresh cycle_of_self[of ?i0 ?g] by blast
    then have cardC: "int (card ?C) = cc + 1"
      using finC \<open>int (card C) = cc\<close> by simp
    have "n - ?i' < d" using less.prems(1) gt nu(2) iln by simp
    from less.IH[OF this refl nu(2) cn'(2) _ labC subC cardC low' nu(4)] \<open>0 \<le> cc\<close>
    have "count_components b (cc + 1) cn' ?i' = Some (int (card (cycles ?g ?I)))" by simp
    with unfold show ?thesis by simp
  qed
qed

lemma numberOfComponents_cycles:
  assumes "b \<noteq> []" "\<forall>x\<in>set b. 1 \<le> x"
  shows "numberOfComponents b =
    Some (int (card (cycles (next_index b) {0..max_braid b})))"
proof -
  define n where "n = nat (max_braid b + 1)"
  have M: "1 \<le> max_braid b" by (rule max_braid_ge_1)
  then have I: "{0..<int n} = {0..max_braid b}" by (auto simp: n_def)
  have closed: "next_index b ` {0..<int n} \<subseteq> {0..<int n}"
    unfolding I using next_index_range[OF assms(2)] by auto
  have n0: "0 < n" using M by (simp add: n_def)
  have "count_components b 0 (replicate n 0) 0 =
      Some (int (card (cycles (next_index b) {0..<int n})))"
  proof (rule count_components_cycles[OF inj_next_index closed refl, where C = "{}"])
    show "labelled (replicate n 0) = \<Union>{}" by (auto simp: labelled_def)
    show "0 < n \<longrightarrow> replicate n (0::int) ! 0 = 0" by simp
  qed simp_all
  then have "count_components b 0 (replicate n 0) 0 =
      Some (int (card (cycles (next_index b) {0..max_braid b})))"
    unfolding I .
  moreover have "numberOfComponents b = count_components b 0 (replicate n 0) 0"
    using assms(1) by (simp add: numberOfComponents_def n_def)
  ultimately show ?thesis by simp
qed

lemma funpow_next_index: "(follow b ^^ k) (i + 1) = (next_index b ^^ k) i + 1"
  by (induction k) (simp_all add: next_index_def)

lemma cycle_of_shift:
  "cycle_of (follow b) (i + 1) = (\<lambda>x. x + 1) ` cycle_of (next_index b) i"
  by (auto simp: cycle_of_def funpow_next_index)

lemma cycles_shift:
  "cycles (follow b) {1..M + 1} = image (\<lambda>x. x + 1) ` cycles (next_index b) {0..M}"
proof -
  have e: "(\<lambda>x. x + 1) ` {0..M} = {1..M + 1}" by (simp add: image_add_atLeastAtMost')
  have "cycle_of (follow b) ` ((\<lambda>x. x + 1) ` {0..M}) =
        (\<lambda>i. cycle_of (follow b) (i + 1)) ` {0..M}"
    by (simp only: image_image)
  also have "\<dots> = (\<lambda>i. (\<lambda>x. x + 1) ` cycle_of (next_index b) i) ` {0..M}"
    by (simp only: cycle_of_shift)
  also have "\<dots> = image (\<lambda>x. x + 1) ` (cycle_of (next_index b) ` {0..M})"
    by (simp only: image_image)
  finally show ?thesis unfolding cycles_def e .
qed

lemma card_cycles_shift:
  "card (cycles (follow b) {1..M + 1}) = card (cycles (next_index b) {0..M})"
proof -
  have "inj_on (image (\<lambda>x::int. x + 1)) (cycles (next_index b) {0..M})"
  proof (rule inj_onI)
    fix A B :: "int set"
    assume "(\<lambda>x. x + 1) ` A = (\<lambda>x. x + 1) ` B"
    then show "A = B" by (simp add: inj_image_eq_iff)
  qed
  then show ?thesis unfolding cycles_shift by (rule card_image)
qed

lemma spec_components_next_index:
  "spec_components b = card (cycles (next_index b) {0..max_braid b})"
  by (simp add: spec_components_def follow_induced[symmetric] card_cycles_shift)

lemma spec_components_pos:
  assumes "\<forall>x\<in>set b. 1 \<le> x"
  shows "1 \<le> spec_components b"
proof -
  have "cycle_of (next_index b) 0 \<in> cycles (next_index b) {0..max_braid b}"
    using max_braid_ge_1[of b] by (auto simp: cycles_def)
  moreover have "finite (cycles (next_index b) {0..max_braid b})" by (simp add: cycles_def)
  ultimately have "0 < card (cycles (next_index b) {0..max_braid b})"
    using card_gt_0_iff by blast
  then show ?thesis by (simp add: spec_components_next_index)
qed

lemma spec_components_empty: "spec_components [] = 2"
proof -
  have c: "cycle_of id p = {p}" for p :: int by (auto simp: cycle_of_def)
  have "induced_permutation [] = id" by (auto simp: induced_permutation_def)
  moreover have "max_braid [] = 1" by (simp add: max_braid_def)
  moreover have "{1..1 + 1} = {1, 2 :: int}" by auto
  ultimately have "cycles (induced_permutation []) {1..max_braid [] + 1} = {{1}, {2}}"
    by (simp add: cycles_def c)
  then show ?thesis by (simp add: spec_components_def)
qed

text \<open>
  Claim C10. For the empty word \<open>numberOfComponents\<close> returns 0, although the formula of
  the specification gives 2 cycles there (the identity on the strands 1 and 2). For every
  non-empty braid word (letters at least 1) it returns the number of cycles of the induced
  permutation of \<open>{1 .. max + 1}\<close>, and this number is at least 1.
\<close>

theorem numberOfComponents_counts_cycles:
  "numberOfComponents [] = Some 0 \<and> spec_components [] = 2 \<and>
   (b \<noteq> [] \<and> (\<forall>x\<in>set b. 1 \<le> x) \<longrightarrow>
      numberOfComponents b = Some (int (spec_components b)) \<and> 1 \<le> spec_components b)"
proof (intro conjI impI)
  show "numberOfComponents [] = Some 0" by (simp add: numberOfComponents_def)
  show "spec_components [] = 2" by (rule spec_components_empty)
next
  assume a: "b \<noteq> [] \<and> (\<forall>x\<in>set b. 1 \<le> x)"
  then show "numberOfComponents b = Some (int (spec_components b))"
    using numberOfComponents_cycles[of b] by (simp add: spec_components_next_index)
  from a show "1 \<le> spec_components b" using spec_components_pos[of b] by simp
qed

theorem numberOfComponents_counts_cycles_witness:
  "numberOfComponents [] = Some 0 \<and> spec_components [] = 2 \<and>
   [1, 2, 1] \<noteq> ([] :: int list) \<and> list_all (\<lambda>x. 1 \<le> x) [1, 2, 1 :: int] \<and>
   numberOfComponents [1, 2, 1] = Some 2 \<and> spec_components [1, 2, 1] = 2"
proof -
  have 1: "numberOfComponents [1, 2, 1] = Some 2" by code_simp
  from numberOfComponents_counts_cycles[of "[1, 2, 1]"] 1 show ?thesis by simp
qed

subsection \<open>Termination of the search\<close>

lemma missing_loop_total: "\<exists>m'. missing_loop b is m = Some m'"
  by (induction "is" arbitrary: m) (simp_all add: debug_def Let_def)

lemma missingCrossings_total: "\<exists>k. missingCrossingsForPrimality b = Some k"
proof -
  obtain m' where
    "missing_loop b [1..<nat (max_braid b)] (replicate (nat (max_braid b)) 0) = Some m'"
    using missing_loop_total by blast
  then show ?thesis by (simp add: missingCrossingsForPrimality_def Let_def)
qed

lemma lexicoGood_total: "b \<noteq> [] \<Longrightarrow> \<exists>r. lexicoGood b = Some r"
  by (simp add: lexicoGood_def)

lemma reidemeister_total: "b \<noteq> [] \<Longrightarrow> \<exists>r. reidemeister b = Some r"
  by (auto simp: reidemeister_def split: list.splits)

lemma completable_total:
  assumes "b \<noteq> []" "\<forall>x\<in>set b. 1 \<le> x"
  shows "\<exists>c. completable b m = Some c"
proof -
  from numberOfComponents_cycles[OF assms] obtain comps where
    1: "numberOfComponents b = Some comps" by blast
  from missingCrossings_total obtain missing where
    2: "missingCrossingsForPrimality b = Some missing" by blast
  from lexicoGood_total[OF assms(1)] obtain lex where 3: "lexicoGood b = Some lex" by blast
  from reidemeister_total[OF assms(1)] obtain reid where 4: "reidemeister b = Some reid" by blast
  show ?thesis by (simp add: completable_def 1 2 3 4)
qed

text \<open>The position of the traversal of \<open>printDT\<close> moves like the offset of \<open>numberOfComponents\<close>.\<close>

lemma dt_visit_c:
  "dt_c (dt_visit v k st) = strand_step (v ! k) (dt_c st + 1) - 1"
  by (auto simp: dt_visit_def Let_def strand_step_def)

lemma fold_dt_visit_c:
  "dt_c (fold (dt_visit v) ks st) = fold strand_step (map ((!) v) ks) (dt_c st + 1) - 1"
proof (induction ks arbitrary: st)
  case Nil
  show ?case by simp
next
  case (Cons k ks)
  show ?case by (simp add: Cons.IH dt_visit_c)
qed

lemma dt_pass_c: "dt_c (dt_pass v st) = next_index v (dt_c st)"
  by (simp add: dt_pass_def Let_def fold_dt_visit_c map_nth next_index_def follow_def)

lemma dt_loop_total_aux:
  "(next_index v ^^ Suc k) (dt_c st) = 0 \<Longrightarrow> \<exists>st'. dt_loop v st = Some st'"
proof (induction k arbitrary: st)
  case 0
  then have "dt_c (dt_pass v st) = 0" by (simp add: dt_pass_c)
  then show ?case by (subst dt_loop.simps) (simp add: Let_def)
next
  case (Suc k)
  show ?case
  proof (cases "dt_c (dt_pass v st) = 0")
    case True
    then show ?thesis by (subst dt_loop.simps) (simp add: Let_def)
  next
    case False
    have "(next_index v ^^ Suc k) (dt_c (dt_pass v st)) = 0"
      using Suc.prems by (simp add: dt_pass_c funpow_swap1)
    from Suc.IH[OF this] obtain st' where "dt_loop v (dt_pass v st) = Some st'" by blast
    with False show ?thesis by (subst dt_loop.simps) (simp add: Let_def)
  qed
qed

lemma dt_loop_total:
  assumes "\<forall>x\<in>set v. 1 \<le> x"
  shows "\<exists>st'. dt_loop v (dt_init v) = Some st'"
proof -
  have closed: "next_index v ` {0..max_braid v} \<subseteq> {0..max_braid v}"
    using next_index_range[OF assms] by auto
  have "(0::int) \<in> {0..max_braid v}" using max_braid_ge_1[of v] by simp
  from returns_to_start[OF inj_next_index _ closed this]
  obtain p where p: "0 < p" "(next_index v ^^ p) 0 = 0" by auto
  then obtain k where "p = Suc k" by (cases p) auto
  with p(2) have "(next_index v ^^ Suc k) (dt_c (dt_init v)) = 0" by (simp add: dt_init_def)
  then show ?thesis by (rule dt_loop_total_aux)
qed

lemma printDT_total:
  assumes "\<forall>x\<in>set v. 1 \<le> x"
  shows "\<exists>r. printDT v cnt = Some r"
proof -
  from dt_loop_total[OF assms] obtain st where "dt_loop v (dt_init v) = Some st" by blast
  then show ?thesis by (auto simp: printDT_def Let_def)
qed

lemma listBraids_step_total:
  assumes "1 < length (braid st)" "\<forall>x\<in>set (braid st). 1 \<le> x"
  shows "\<exists>st'. listBraids_step m st = Some st'"
proof -
  let ?b = "braid st"
  have ne: "?b \<noteq> []" using assms(1) by auto
  have ne2: "butlast ?b \<noteq> []" using assms(1) by (cases ?b rule: rev_cases) auto
  show ?thesis
  proof (cases "lastLetterTooHigh ?b m")
    case True
    then show ?thesis using ne ne2
      by (simp add: listBraids_step_def pop_back_def inc_back_def Let_def)
  next
    case False
    from completable_total[OF ne assms(2)] obtain c where c: "completable ?b m = Some c"
      by blast
    from printDT_total[OF assms(2)] obtain r where r: "printDT ?b (counter st + 1) = Some r"
      by blast
    show ?thesis using False c r ne
      by (simp add: listBraids_step_def inc_back_def appendLetter_def Let_def)
  qed
qed

lemma count_sum_le_length:
  fixes S :: "int set"
  assumes "finite S"
  shows "(\<Sum>x\<in>S. count_list xs x) \<le> length xs"
proof (induction xs)
  case Nil
  show ?case by simp
next
  case (Cons y ys)
  have "count_list (y # ys) x = count_list ys x + (if x = y then 1 else 0)" for x
    by simp
  then have "(\<Sum>x\<in>S. count_list (y # ys) x) =
        (\<Sum>x\<in>S. count_list ys x + (if x = y then 1 else 0))"
    by (simp only:)
  also have "\<dots> = (\<Sum>x\<in>S. count_list ys x) + (\<Sum>x\<in>S. if x = y then 1 else 0)"
    by (rule sum.distrib)
  also have "(\<Sum>x\<in>S. if x = y then 1 else 0) = (if y \<in> S then 1 else (0::nat))"
    using assms by (simp add: sum.delta)
  finally show ?case using Cons by simp
qed

lemma missing_lower_bound:
  assumes "missingCrossingsForPrimality p = Some missing"
  shows "int (card {i \<in> {1..<nat (max_braid p)}. twistRegions p (int i) < 4}) \<le> missing"
proof -
  let ?M = "nat (max_braid p)"
  let ?A = "{i \<in> {1..<?M}. twistRegions p (int i) < 4}"
  from assms obtain m' where
    m': "missing_loop p [1..<?M] (replicate ?M 0) = Some m'"
    and k: "missing = sum_braid m'"
    by (auto simp: missingCrossingsForPrimality_def Let_def)
  have len: "length m' = ?M" using missing_loop_length[OF m'] by simp
  have nonneg: "\<forall>x\<in>set m'. 0 \<le> x"
    by (rule missing_loop_nonneg[OF m']) simp
  have one: "1 \<le> m' ! i" if "i \<in> ?A" for i
  proof -
    from that have i: "i \<in> set [1..<?M]" "i < length (replicate ?M (0::int))"
      "twistRegions p (int i) < 4" by auto
    from missing_loop_marks[OF m' i] have "m' ! i \<noteq> 0" .
    moreover have "0 \<le> m' ! i" using nonneg that len by simp
    ultimately show ?thesis by simp
  qed
  have "int (card ?A) = (\<Sum>i\<in>?A. 1)" by simp
  also have "\<dots> \<le> (\<Sum>i\<in>?A. m' ! i)" using one by (intro sum_mono) blast
  also have "\<dots> \<le> (\<Sum>i\<in>{0..<length m'}. m' ! i)"
  proof (rule sum_mono2)
    show "finite {0..<length m'}" by simp
    show "?A \<subseteq> {0..<length m'}" using len by auto
    show "\<And>b. b \<in> {0..<length m'} - ?A \<Longrightarrow> 0 \<le> m' ! b" using nonneg by simp
  qed
  also have "\<dots> = sum_list m'" by (simp add: sum_list_sum_nth)
  finally show ?thesis by (simp add: k sum_braid_sum_list)
qed

lemma good_columns_bound:
  "2 * card {i \<in> {1..<M}. 4 \<le> twistRegions p (int i)} \<le> length p"
proof -
  let ?G = "{i \<in> {1..<M}. 4 \<le> twistRegions p (int i)}"
  have "2 * card ?G = (\<Sum>i\<in>?G. 2)" by simp
  also have "\<dots> \<le> (\<Sum>i\<in>?G. count_list p (int i))"
    using twistRegions_4_counts(1) by (intro sum_mono) blast
  also have "\<dots> = (\<Sum>x\<in>int ` ?G. count_list p x)"
    by (simp add: sum.reindex)
  also have "\<dots> \<le> length p" by (intro count_sum_le_length) simp
  finally show ?thesis .
qed

lemma completable_length_bound:
  assumes "completable p m = Some 15"
  shows "int (length p) \<le> 2 * m + 2"
proof -
  from assms obtain comps missing where
    mc: "missingCrossingsForPrimality p = Some missing" and le: "missing \<le> m - b1 p"
    by (rule completable_15)
  let ?M = "nat (max_braid p)"
  let ?A = "{i \<in> {1..<?M}. twistRegions p (int i) < 4}"
  let ?G = "{i \<in> {1..<?M}. 4 \<le> twistRegions p (int i)}"
  have M: "int ?M = max_braid p" using max_braid_ge_1[of p] by simp
  have "?A \<union> ?G = {1..<?M}" "?A \<inter> ?G = {}" by auto
  then have "card ?A + card ?G = card {1..<?M}"
    by (metis (no_types, lifting) card_Un_disjoint finite_Un finite_atLeastLessThan)
  then have split: "int (card ?A) + int (card ?G) = max_braid p - 1"
    using M max_braid_ge_1[of p] by simp
  have A: "int (card ?A) \<le> missing" using mc by (rule missing_lower_bound)
  have G: "2 * int (card ?G) \<le> int (length p)"
    using good_columns_bound[of ?M p] by linarith
  from le have "missing \<le> m - int (length p) + max_braid p" by (simp add: b1_def)
  with A G split show ?thesis by linarith
qed

lemma prefix_bounded_snoc:
  "prefix_bounded (p @ [y]) \<longleftrightarrow> prefix_bounded p \<and> y \<le> int (length p) + 1"
proof
  assume a: "prefix_bounded (p @ [y])"
  have "p ! k \<le> int k + 1" if "k < length p" for k
  proof -
    from that have "(p @ [y]) ! k \<le> int k + 1" using a by (simp add: prefix_bounded_def)
    with that show ?thesis by (simp add: nth_append)
  qed
  moreover have "(p @ [y]) ! length p \<le> int (length p) + 1"
    using a[unfolded prefix_bounded_def, rule_format, of "length p"] by simp
  ultimately show "prefix_bounded p \<and> y \<le> int (length p) + 1"
    by (simp add: prefix_bounded_def)
next
  assume a: "prefix_bounded p \<and> y \<le> int (length p) + 1"
  show "prefix_bounded (p @ [y])"
    unfolding prefix_bounded_def
  proof (intro allI impI)
    fix k assume "k < length (p @ [y])"
    then consider "k < length p" | "k = length p" by fastforce
    then show "(p @ [y]) ! k \<le> int k + 1"
      using a by cases (simp_all add: prefix_bounded_def nth_append)
  qed
qed

lemma prefix_bounded_le_length:
  assumes "prefix_bounded p" "x \<in> set p"
  shows "x \<le> int (length p)"
proof -
  from assms(2) obtain k where "k < length p" "p ! k = x" by (auto simp: in_set_conv_nth)
  with assms(1) show ?thesis by (auto simp: prefix_bounded_def)
qed

lemma max_element_in: "p \<noteq> [] \<Longrightarrow> max_element p \<in> set p"
proof (cases p)
  case Nil
  then show "p \<noteq> [] \<Longrightarrow> max_element p \<in> set p" by simp
next
  case (Cons x xs)
  then show ?thesis using fold_max_in[of xs x] by simp
qed

lemma not_too_high_bound:
  assumes "\<not> lastLetterTooHigh (p @ [z]) m" "p \<noteq> []" "prefix_bounded p"
  shows "z \<le> int (length p) + 1"
proof -
  have "\<not> length (p @ [z]) < 2" using assms(2) by (cases p) simp_all
  then have "lastLetterTooHigh (p @ [z]) m = (z > 1 + max_element p)"
    unfolding lastLetterTooHigh_def by (simp only: if_False last_snoc butlast_snoc)
  with assms(1) have "z \<le> 1 + max_element p" by simp
  moreover have "max_element p \<le> int (length p)"
    using assms(3) max_element_in[OF assms(2)] by (rule prefix_bounded_le_length)
  ultimately show ?thesis by simp
qed

lemma search_inv_snoc:
  "search_inv m (p @ [z]) \<longleftrightarrow>
     (\<forall>x\<in>set p. 1 \<le> x) \<and> 1 \<le> z \<and> prefix_bounded p \<and> z \<le> int (length p) + 2 \<and>
     int (length p) + 1 \<le> max 2 (2 * m + 3)"
  by (auto simp: search_inv_def)

lemma word_number_snoc: "word_number B (p @ [z]) = word_number B p * B + z"
  by (simp add: word_number_def)

lemma word_number_bounds:
  assumes "\<forall>x\<in>set w. 0 \<le> x \<and> x < B" "0 < B"
  shows "0 \<le> word_number B w \<and> word_number B w < B ^ length w"
  using assms(1)
proof (induction w rule: rev_induct)
  case Nil
  show ?case by (simp add: word_number_def)
next
  case (snoc z p)
  then have IH: "0 \<le> word_number B p" "word_number B p + 1 \<le> B ^ length p" by simp_all
  from snoc.prems have z: "0 \<le> z" "z < B" by simp_all
  have "word_number B p * B + z < (word_number B p + 1) * B"
    using z by (simp add: algebra_simps)
  also have "\<dots> \<le> B ^ length p * B"
    using IH(2) assms(2) by (intro mult_right_mono) simp_all
  finally have "word_number B (p @ [z]) < B ^ length (p @ [z])"
    by (simp add: word_number_snoc mult.commute)
  moreover have "0 \<le> word_number B (p @ [z])"
    using IH(1) z assms(2) by (simp add: word_number_snoc)
  ultimately show ?case by simp
qed

lemma base_pos: "2 \<le> base m"
  by (simp add: base_def)

lemma search_inv_letters:
  assumes "search_inv m w" "x \<in> set w"
  shows "1 \<le> x \<and> x < base m"
proof -
  from assms(1) have ne: "w \<noteq> []" by (simp add: search_inv_def)
  then obtain p z where w: "w = p @ [z]" by (cases w rule: rev_cases) auto
  from assms(1) have inv: "\<forall>x\<in>set p. 1 \<le> x" "1 \<le> z" "prefix_bounded p"
    "z \<le> int (length p) + 2" "int (length p) + 1 \<le> max 2 (2 * m + 3)"
    unfolding w search_inv_snoc by simp_all
  have N: "int (length p) + 1 \<le> int (max_length m)"
    using inv(5) by (simp add: max_length_def)
  from assms(2) consider "x \<in> set p" | "x = z" unfolding w by auto
  then show ?thesis
  proof cases
    case 1
    then have "x \<le> int (length p)" using inv(3) prefix_bounded_le_length by blast
    with 1 inv(1) N show ?thesis by (simp add: base_def)
  next
    case 2
    with inv(2,4) N show ?thesis by (simp add: base_def)
  qed
qed

lemma progress_bound:
  assumes "search_inv m w"
  shows "progress m w < base m ^ max_length m"
proof -
  let ?B = "base m" and ?N = "max_length m"
  have B: "0 < ?B" using base_pos[of m] by simp
  have len: "length w \<le> ?N" using assms unfolding search_inv_def max_length_def by linarith
  have "\<forall>x\<in>set w. 0 \<le> x \<and> x < ?B" using search_inv_letters[OF assms] by force
  from word_number_bounds[OF this B] have "word_number ?B w < ?B ^ length w" by simp
  then have "word_number ?B w * ?B ^ (?N - length w) < ?B ^ length w * ?B ^ (?N - length w)"
    using B by (intro mult_strict_right_mono) simp_all
  also have "\<dots> = ?B ^ ?N" using len by (simp add: power_add[symmetric])
  finally show ?thesis by (simp add: progress_def)
qed

lemma progress_inc:
  "progress m (p @ [z]) < progress m (p @ [z + 1])"
proof -
  have "0 < base m ^ (max_length m - length (p @ [z]))" using base_pos[of m] by simp
  then show ?thesis by (simp add: progress_def word_number_snoc algebra_simps)
qed

lemma progress_append:
  assumes "1 \<le> x" "Suc (length w) \<le> max_length m"
  shows "progress m w < progress m (w @ [x])"
proof -
  let ?B = "base m"
  define e where "e = max_length m - Suc (length w)"
  have e: "max_length m - length w = Suc e" using assms(2) by (simp add: e_def)
  have pos: "0 < ?B ^ e" using base_pos[of m] by simp
  have "progress m (w @ [x]) = (word_number ?B w * ?B + x) * ?B ^ e"
    by (simp add: progress_def word_number_snoc e_def)
  also have "\<dots> = progress m w + x * ?B ^ e"
    by (simp add: progress_def e algebra_simps)
  finally show ?thesis using pos assms(1) by (simp add: mult_pos_pos)
qed

lemma progress_backtrack:
  assumes "z < base m" "length q + 2 \<le> max_length m"
  shows "progress m (q @ [y, z]) < progress m (q @ [y + 1])"
proof -
  let ?B = "base m"
  define e where "e = max_length m - (length q + 2)"
  have e: "max_length m - length (q @ [y + 1]) = Suc e" using assms(2) by (simp add: e_def)
  have pos: "0 < ?B ^ e" using base_pos[of m] by simp
  have 1: "progress m (q @ [y, z]) = ((word_number ?B q * ?B + y) * ?B + z) * ?B ^ e"
    using word_number_snoc[of ?B "q @ [y]" z]
    by (simp add: progress_def word_number_snoc e_def)
  have 2: "progress m (q @ [y + 1]) = ((word_number ?B q * ?B + y) * ?B + ?B) * ?B ^ e"
    unfolding progress_def e by (simp add: word_number_snoc algebra_simps)
  have "((word_number ?B q * ?B + y) * ?B + z) * ?B ^ e
        < ((word_number ?B q * ?B + y) * ?B + ?B) * ?B ^ e"
    using assms(1) pos by (intro mult_strict_right_mono) simp_all
  with 1 2 show ?thesis by simp
qed

lemma step_progress:
  assumes inv: "search_inv m (braid st)" and len: "1 < length (braid st)"
    and stp: "listBraids_step m st = Some st'"
  shows "search_inv m (braid st') \<and> progress m (braid st) < progress m (braid st')"
proof -
  from len obtain p z where w: "braid st = p @ [z]" and p: "p \<noteq> []"
    by (cases "braid st" rule: rev_cases) auto
  from inv have I: "\<forall>x\<in>set p. 1 \<le> x" "1 \<le> z" "prefix_bounded p"
    "z \<le> int (length p) + 2" "int (length p) + 1 \<le> max 2 (2 * m + 3)"
    unfolding w search_inv_snoc by simp_all
  have incr: "search_inv m (p @ [z + 1]) \<and> progress m (p @ [z]) < progress m (p @ [z + 1])"
    if "\<not> lastLetterTooHigh (braid st) m"
  proof -
    from that have "z \<le> int (length p) + 1"
      unfolding w using p I(3) by (rule not_too_high_bound)
    with I have "search_inv m (p @ [z + 1])" unfolding search_inv_snoc by simp
    then show ?thesis using progress_inc by blast
  qed
  from stp show ?thesis
  proof (cases rule: step_cases)
    case (backtrack b')
    from backtrack(2) have b': "b' = p" by (simp add: w pop_back_def)
    from p obtain q y where q: "p = q @ [y]" by (cases p rule: rev_cases) auto
    from backtrack(3) have w': "braid st' = q @ [y + 1]"
      by (simp add: b' q inc_back_def)
    from I(3) have pq: "prefix_bounded q" "y \<le> int (length q) + 1"
      unfolding q prefix_bounded_snoc by simp_all
    have "search_inv m (q @ [y + 1])"
      unfolding search_inv_snoc using I(1,5) pq by (simp add: q)
    moreover have "z < base m" using search_inv_letters[OF inv, of z] by (simp add: w)
    moreover have "length q + 2 \<le> max_length m"
      using I(5) unfolding q max_length_def by simp
    ultimately show ?thesis unfolding w w' q using progress_backtrack by simp
  next
    case (increase c)
    from increase(4) have "braid st' = p @ [z + 1]" by (simp add: w inc_back_def)
    with incr[OF increase(1)] show ?thesis by (simp add: w)
  next
    case (emit r)
    from emit(5) have "braid st' = p @ [z + 1]" by (simp add: w inc_back_def)
    with incr[OF emit(1)] show ?thesis by (simp add: w)
  next
    case append
    define x where "x = (if z = 1 then 1 else z - 1)"
    from append(4) have w': "braid st' = braid st @ [x]"
      by (auto simp: w appendLetter_def x_def split: if_splits)
    have x: "1 \<le> x" "x \<le> z" using I(2) by (simp_all add: x_def)
    from append(1) have zb: "z \<le> int (length p) + 1"
      unfolding w using p I(3) by (rule not_too_high_bound)
    have lb: "int (length (braid st)) \<le> 2 * m + 2"
      using append(2) by (rule completable_length_bound)
    have "search_inv m ((p @ [z]) @ [x])"
      unfolding search_inv_snoc prefix_bounded_snoc using I x zb lb by (simp add: w)
    moreover have "Suc (length (braid st)) \<le> max_length m"
      using lb unfolding max_length_def by simp
    then have "progress m (braid st) < progress m (braid st @ [x])"
      using x(1) by (intro progress_append)
    ultimately show ?thesis by (simp add: w w')
  qed
qed

lemma listBraids_loop_total:
  "search_inv m (braid st) \<Longrightarrow> \<exists>r. listBraids_loop m st = Some r"
proof (induction "nat (base m ^ max_length m - progress m (braid st))" arbitrary: st
    rule: less_induct)
  case less
  show ?case
  proof (cases "1 < length (braid st)")
    case False
    then show ?thesis by (subst listBraids_loop.simps) simp
  next
    case True
    have "\<forall>x\<in>set (braid st). 1 \<le> x" using less.prems by (simp add: search_inv_def)
    from listBraids_step_total[OF True this] obtain st' where
      st': "listBraids_step m st = Some st'" by blast
    from step_progress[OF less.prems True st'] have
      inv': "search_inv m (braid st')" and up: "progress m (braid st) < progress m (braid st')"
      by simp_all
    have "progress m (braid st') < base m ^ max_length m" using inv' by (rule progress_bound)
    with up have "nat (base m ^ max_length m - progress m (braid st'))
        < nat (base m ^ max_length m - progress m (braid st))" by simp
    from less.hyps[OF this inv'] obtain r where "listBraids_loop m st' = Some r" by blast
    with True st' show ?thesis by (subst listBraids_loop.simps) simp
  qed
qed

lemma search_inv_init: "search_inv m (braid listBraids_init)"
proof -
  have "search_inv m ([1] @ [1])"
    unfolding search_inv_snoc by (simp add: prefix_bounded_def)
  then show ?thesis by (simp add: listBraids_init_def)
qed

lemma listBraids_total: "\<exists>st. listBraids m = Some st"
  unfolding listBraids_def using search_inv_init by (rule listBraids_loop_total)

lemma listBraids_loop_steps_exist:
  assumes "listBraids_loop m st = Some r"
  shows "\<exists>k. listBraids_steps k m st = Some r \<and> \<not> 1 < length (braid r)"
proof (rule listBraids_loop.raw_induct
    [where P = "\<lambda>m st r. \<exists>k. listBraids_steps k m st = Some r \<and> \<not> 1 < length (braid r)",
     OF _ assms])
  fix f :: "int \<Rightarrow> search_state \<Rightarrow> search_state option" and maxB1 s final
  assume IH: "\<And>m s y. f m s = Some y \<Longrightarrow>
      \<exists>k. listBraids_steps k m s = Some y \<and> \<not> 1 < length (braid y)"
  assume body: "(if 1 < length (braid s) then Option.bind (listBraids_step maxB1 s) (f maxB1)
                 else Some s) = Some final"
  show "\<exists>k. listBraids_steps k maxB1 s = Some final \<and> \<not> 1 < length (braid final)"
  proof (cases "1 < length (braid s)")
    case False
    with body have "listBraids_steps 0 maxB1 s = Some final \<and> \<not> 1 < length (braid final)"
      by simp
    then show ?thesis by blast
  next
    case True
    with body obtain s1 where s: "listBraids_step maxB1 s = Some s1"
      and l: "f maxB1 s1 = Some final"
      by (auto split: Option.bind_splits)
    from IH[OF l] obtain k where
      "listBraids_steps k maxB1 s1 = Some final" "\<not> 1 < length (braid final)" by blast
    with True s have
      "listBraids_steps (Suc k) maxB1 s = Some final \<and> \<not> 1 < length (braid final)"
      by simp
    then show ?thesis by blast
  qed
qed

text \<open>
  Claim C8. For every bound \<open>maxB1 \<ge> 0\<close> the driver returns: started from the seed
  \<open>[1, 1]\<close>, the loop reaches after finitely many iterations a state whose word has
  length 1, and that state is the result of \<open>listBraids\<close>.
\<close>

theorem listBraids_terminates:
  "0 \<le> maxB1 \<Longrightarrow>
     \<exists>st k. listBraids maxB1 = Some st \<and>
            listBraids_steps k maxB1 listBraids_init = Some st \<and> length (braid st) = 1"
proof -
  from listBraids_total obtain st where st: "listBraids maxB1 = Some st" by blast
  then obtain k where k: "listBraids_steps k maxB1 listBraids_init = Some st"
    "\<not> 1 < length (braid st)"
    unfolding listBraids_def using listBraids_loop_steps_exist by blast
  have "braid st \<noteq> []" using reachable_positive[OF listBraids_reachable[OF st]] by simp
  with k(2) have "length (braid st) = 1" by (cases "braid st") auto
  with st k(1) show ?thesis by blast
qed

theorem listBraids_terminates_witness:
  "(0 :: int) \<le> 2 \<and>
   (\<exists>st k. listBraids 2 = Some st \<and> listBraids_steps k 2 listBraids_init = Some st \<and>
           length (braid st) = 1)"
  using listBraids_terminates[of 2] by simp

subsection \<open>The traversal of the DT-code extractor\<close>

lemma dt_run_0: "dt_run v 0 = dt_init v"
  by (simp add: dt_run_def)

lemma dt_run_Suc: "dt_run v (Suc T) = dt_visit v (T mod length v) (dt_run v T)"
  by (simp add: dt_run_def)

lemma dt_visit_c_move: "dt_c (dt_visit v k st) = dt_move (v ! k) (dt_c st)"
  by (auto simp: dt_visit_def Let_def dt_move_def)

lemma dt_run_c: "dt_c (dt_run v T) = dt_pos v T"
  by (induction T) (simp_all add: dt_run_0 dt_init_def dt_run_Suc dt_visit_c_move)

lemma dt_lab_Suc: "dt_lab v (Suc t) = dt_lab v t + (if dt_vis v t then 1 else 0)"
proof -
  have "{s. s < Suc t \<and> dt_vis v s} =
        (if dt_vis v t then insert t {s. s < t \<and> dt_vis v s} else {s. s < t \<and> dt_vis v s})"
    by (auto simp: less_Suc_eq)
  then show ?thesis by (simp add: dt_lab_def)
qed

lemma dt_visit_cc:
  "dt_crossingCounter (dt_visit v k st) =
     dt_crossingCounter st + (if v ! k = dt_c st \<or> v ! k = dt_c st + 1 then 1 else 0)"
  by (auto simp: dt_visit_def Let_def)

lemma dt_run_cc: "dt_crossingCounter (dt_run v T) = dt_lab v T"
proof (induction T)
  case 0
  show ?case by (simp add: dt_run_0 dt_init_def dt_lab_def)
next
  case (Suc T)
  show ?case
    by (simp add: dt_run_Suc dt_visit_cc Suc dt_lab_Suc dt_run_c dt_vis_def)
qed

lemma dt_visit_length: "length (dt_n (dt_visit v k st)) = length (dt_n st)"
  by (auto simp: dt_visit_def Let_def)

lemma dt_run_length: "length (dt_n (dt_run v T)) = length v"
  by (induction T) (simp_all add: dt_run_0 dt_init_def dt_run_Suc dt_visit_length)

text \<open>What a step does to the even label of the crossing \<open>k\<close>.\<close>

lemma dt_visit_e_other:
  assumes "k' \<noteq> k"
  shows "e_of (dt_n (dt_visit v k' st) ! k) = e_of (dt_n st ! k)"
  using assms by (auto simp: dt_visit_def Let_def)

lemma dt_visit_e_odd:
  assumes "dt_crossingCounter st mod 2 \<noteq> 0" "k < length (dt_n st)"
  shows "e_of (dt_n (dt_visit v k' st) ! k) = e_of (dt_n st ! k)"
proof (cases "k' = k")
  case False
  then show ?thesis by (rule dt_visit_e_other)
next
  case True
  with assms show ?thesis by (auto simp: dt_visit_def Let_def)
qed

lemma dt_visit_e_skip:
  assumes "\<not> (v ! k' = dt_c st \<or> v ! k' = dt_c st + 1)"
  shows "dt_visit v k' st = st"
  using assms by (auto simp: dt_visit_def Let_def)

lemma dt_visit_e_even:
  assumes "v ! k = dt_c st \<or> v ! k = dt_c st + 1" "dt_crossingCounter st mod 2 = 0"
    "k < length (dt_n st)"
  shows "e_of (dt_n (dt_visit v k st) ! k) = dt_crossingCounter st"
  using assms by (auto simp: dt_visit_def Let_def)

lemma dt_run_e:
  assumes t: "t mod length v = k" "dt_vis v t" "even (dt_lab v t)" and k: "k < length v"
  shows "t < T \<Longrightarrow>
    (\<forall>t'. t < t' \<and> t' < T \<and> t' mod length v = k \<and> dt_vis v t' \<longrightarrow> odd (dt_lab v t')) \<Longrightarrow>
    e_of (dt_n (dt_run v T) ! k) = dt_lab v t"
proof (induction T)
  case 0
  then show ?case by simp
next
  case (Suc T)
  show ?case
  proof (cases "t = T")
    case True
    have "v ! k = dt_c (dt_run v T) \<or> v ! k = dt_c (dt_run v T) + 1"
      using t(1,2) True by (simp add: dt_run_c dt_vis_def)
    moreover have "dt_crossingCounter (dt_run v T) mod 2 = 0"
      using t(3) True by (simp add: dt_run_cc)
    moreover have "k < length (dt_n (dt_run v T))" using k by (simp add: dt_run_length)
    ultimately have "e_of (dt_n (dt_visit v k (dt_run v T)) ! k) = dt_crossingCounter (dt_run v T)"
      by (rule dt_visit_e_even)
    then show ?thesis using t(1) True by (simp add: dt_run_Suc dt_run_cc)
  next
    case False
    with Suc.prems(1) have tT: "t < T" by simp
    have IH: "e_of (dt_n (dt_run v T) ! k) = dt_lab v t"
      using Suc.IH[OF tT] Suc.prems(2) by simp
    have "e_of (dt_n (dt_visit v (T mod length v) (dt_run v T)) ! k) = e_of (dt_n (dt_run v T) ! k)"
    proof (cases "T mod length v = k")
      case False
      then show ?thesis by (rule dt_visit_e_other)
    next
      case True
      show ?thesis
      proof (cases "dt_vis v T")
        case False
        then have "dt_visit v (T mod length v) (dt_run v T) = dt_run v T"
          by (intro dt_visit_e_skip) (simp add: dt_run_c dt_vis_def)
        then show ?thesis by simp
      next
        case vis: True
        with Suc.prems(2) tT True have "odd (dt_lab v T)" by simp
        then have "dt_crossingCounter (dt_run v T) mod 2 \<noteq> 0"
          by (simp add: dt_run_cc odd_iff_mod_2_eq_one)
        moreover have "k < length (dt_n (dt_run v T))" using k by (simp add: dt_run_length)
        ultimately show ?thesis by (rule dt_visit_e_odd)
      qed
    qed
    with IH show ?thesis by (simp add: dt_run_Suc)
  qed
qed

lemma dt_visit_passed:
  "dt_visit v k (st\<lparr>dt_passed := a\<rparr>) = (dt_visit v k st)\<lparr>dt_passed := a\<rparr>"
  by (auto simp: dt_visit_def Let_def)

lemma fold_dt_visit_passed:
  "fold (dt_visit v) ks (st\<lparr>dt_passed := a\<rparr>) = (fold (dt_visit v) ks st)\<lparr>dt_passed := a\<rparr>"
  by (induction ks arbitrary: st) (simp_all add: dt_visit_passed)

lemma map_mod_block: "map (\<lambda>t. t mod n) [j * n..<j * n + n] = [0..<n]"
proof -
  have "[j * n..<j * n + n] = map (\<lambda>i. i + j * n) [0..<n]"
    by (simp add: map_add_upt add.commute)
  then have "map (\<lambda>t. t mod n) [j * n..<j * n + n] = map (\<lambda>i. (i + j * n) mod n) [0..<n]"
    by (simp add: comp_def)
  also have "\<dots> = map (\<lambda>i. i) [0..<n]"
    by (rule map_cong) simp_all
  finally show ?thesis by simp
qed

lemma dt_run_block:
  "dt_run v (j * length v + length v) = fold (dt_visit v) [0..<length v] (dt_run v (j * length v))"
proof -
  let ?n = "length v"
  have "[0..<j * ?n + ?n] = [0..<j * ?n] @ [j * ?n..<j * ?n + ?n]"
    by (rule upt_add_eq_append) simp
  then show ?thesis by (simp add: dt_run_def map_mod_block)
qed

lemma dt_pass_run:
  "dt_pass v ((dt_run v (j * length v))\<lparr>dt_passed := a\<rparr>) =
     (dt_run v (Suc j * length v))\<lparr>dt_passed := a + 1\<rparr>"
proof -
  have "Suc j * length v = j * length v + length v" by simp
  then show ?thesis
    by (simp only: dt_run_block) (simp add: dt_pass_def Let_def fold_dt_visit_passed)
qed

lemma dt_pass_funpow:
  "(dt_pass v ^^ j) (dt_init v) = (dt_run v (j * length v))\<lparr>dt_passed := int j\<rparr>"
proof (induction j)
  case 0
  show ?case by (simp add: dt_run_0 dt_init_def)
next
  case (Suc j)
  have "(dt_pass v ^^ Suc j) (dt_init v) = dt_pass v ((dt_run v (j * length v))\<lparr>dt_passed := int j\<rparr>)"
    using Suc by simp
  also have "\<dots> = (dt_run v (Suc j * length v))\<lparr>dt_passed := int j + 1\<rparr>"
    by (rule dt_pass_run)
  finally show ?case by (simp add: add.commute)
qed

lemma dt_loop_funpow:
  "0 < p \<Longrightarrow> dt_c ((dt_pass v ^^ p) st) = 0 \<Longrightarrow>
   (\<forall>j. 0 < j \<and> j < p \<longrightarrow> dt_c ((dt_pass v ^^ j) st) \<noteq> 0) \<Longrightarrow>
   dt_loop v st = Some ((dt_pass v ^^ p) st)"
proof (induction p arbitrary: st)
  case 0
  then show ?case by simp
next
  case (Suc q)
  show ?case
  proof (cases "q = 0")
    case True
    with Suc.prems(2) have "dt_c (dt_pass v st) = 0" by simp
    then show ?thesis using True by (subst dt_loop.simps) (simp add: Let_def)
  next
    case False
    then have q: "0 < q" by simp
    have ne: "dt_c (dt_pass v st) \<noteq> 0"
      using Suc.prems(3)[rule_format, of 1] q by simp
    have 1: "dt_c ((dt_pass v ^^ q) (dt_pass v st)) = 0"
      using Suc.prems(2) by (simp add: funpow_swap1)
    have 2: "\<forall>j. 0 < j \<and> j < q \<longrightarrow> dt_c ((dt_pass v ^^ j) (dt_pass v st)) \<noteq> 0"
    proof (intro allI impI)
      fix j assume "0 < j \<and> j < q"
      then have "dt_c ((dt_pass v ^^ Suc j) st) \<noteq> 0"
        using Suc.prems(3)[rule_format, of "Suc j"] by simp
      then show "dt_c ((dt_pass v ^^ j) (dt_pass v st)) \<noteq> 0" by (simp add: funpow_swap1)
    qed
    from Suc.IH[OF q 1 2] have "dt_loop v (dt_pass v st) = Some ((dt_pass v ^^ Suc q) st)"
      by (simp add: funpow_swap1)
    with ne show ?thesis by (subst dt_loop.simps) (simp add: Let_def)
  qed
qed

lemma dt_move_strand_step: "dt_move x c = strand_step x (c + 1) - 1"
  by (auto simp: dt_move_def strand_step_def)

lemma fold_dt_move: "fold dt_move xs c = fold strand_step xs (c + 1) - 1"
  by (induction xs arbitrary: c) (simp_all add: dt_move_strand_step)

lemma fold_dt_move_next_index: "fold dt_move v c = next_index v c"
  by (simp add: fold_dt_move next_index_def follow_def)

lemma dt_pos_prefix:
  "i \<le> length v \<Longrightarrow>
     dt_pos v (j * length v + i) = fold dt_move (take i v) (dt_pos v (j * length v))"
proof (induction i)
  case 0
  show ?case by simp
next
  case (Suc i)
  then have i: "i < length v" by simp
  have "(j * length v + i) mod length v = i" using i by simp
  then have "dt_pos v (j * length v + Suc i) = dt_move (v ! i) (dt_pos v (j * length v + i))"
    by simp
  also have "\<dots> = dt_move (v ! i) (fold dt_move (take i v) (dt_pos v (j * length v)))"
    using Suc.IH i by simp
  also have "\<dots> = fold dt_move (take (Suc i) v) (dt_pos v (j * length v))"
    using i by (simp add: take_Suc_conv_app_nth)
  finally show ?case .
qed

lemma dt_pos_pass: "dt_pos v (j * length v) = (next_index v ^^ j) 0"
proof (induction j)
  case 0
  show ?case by simp
next
  case (Suc j)
  have "dt_pos v (Suc j * length v) = dt_pos v (j * length v + length v)"
    by (simp add: add.commute)
  also have "\<dots> = fold dt_move (take (length v) v) (dt_pos v (j * length v))"
    by (rule dt_pos_prefix) simp
  finally show ?case using Suc by (simp add: fold_dt_move_next_index)
qed

lemma dt_pos_at:
  "i \<le> length v \<Longrightarrow>
     dt_pos v (j * length v + i) = fold dt_move (take i v) ((next_index v ^^ j) 0)"
  by (simp add: dt_pos_prefix dt_pos_pass)

lemma dt_move_involution: "dt_move x (dt_move x c) = c"
  by (auto simp: dt_move_def)

lemma inj_dt_move: "inj (dt_move x)"
  by (rule inj_on_inverseI[where g = "dt_move x"]) (rule dt_move_involution)

lemma inj_fold_dt_move: "inj (fold dt_move xs)"
proof (induction xs)
  case Nil
  show ?case by simp
next
  case (Cons x xs)
  show ?case unfolding fold.simps by (rule inj_compose[OF Cons inj_dt_move])
qed

lemma fold_dt_move_range:
  assumes "\<forall>x\<in>set xs. 1 \<le> x \<and> x \<le> M" "0 \<le> c" "c \<le> M"
  shows "0 \<le> fold dt_move xs c \<and> fold dt_move xs c \<le> M"
  using fold_strand_step_range[OF assms(1), of "c + 1"] assms(2,3)
  by (simp add: fold_dt_move)

lemma fold_dt_move_onto:
  assumes "\<forall>x\<in>set xs. 1 \<le> x \<and> x \<le> M"
  shows "fold dt_move xs ` {0..M} = {0..M}"
proof (rule endo_inj_surj)
  show "finite {0..M}" by simp
  show "fold dt_move xs ` {0..M} \<subseteq> {0..M}"
    using fold_dt_move_range[OF assms] by auto
  show "inj_on (fold dt_move xs) {0..M}"
    using inj_fold_dt_move by (rule inj_on_subset) simp
qed

lemma least_period:
  fixes f :: "'a \<Rightarrow> 'a"
  assumes "inj f" "0 < p" "(f ^^ p) x = x"
  obtains q where "0 < q" "(f ^^ q) x = x" "\<forall>j. 0 < j \<and> j < q \<longrightarrow> (f ^^ j) x \<noteq> x"
    "inj_on (\<lambda>j. (f ^^ j) x) {..<q}"
proof -
  have "\<exists>n. 0 < n \<and> (f ^^ n) x = x" using assms(2,3) by blast
  then have "\<exists>n. (0 < n \<and> (f ^^ n) x = x) \<and> (\<forall>k<n. \<not> (0 < k \<and> (f ^^ k) x = x))"
    by (subst (asm) exists_least_iff)
  then obtain q where q: "0 < q \<and> (f ^^ q) x = x"
    and min: "\<forall>k<q. \<not> (0 < k \<and> (f ^^ k) x = x)" by blast
  have least: "(f ^^ j) x \<noteq> x" if "0 < j" "j < q" for j
    using min that by blast
  have "inj_on (\<lambda>j. (f ^^ j) x) {..<q}"
  proof (rule inj_onI)
    fix i j assume ij: "i \<in> {..<q}" "j \<in> {..<q}" "(f ^^ i) x = (f ^^ j) x"
    have main: False if "a < c" "c < q" "(f ^^ a) x = (f ^^ c) x" for a c
    proof -
      have "(f ^^ c) x = (f ^^ a) ((f ^^ (c - a)) x)"
        using that(1) by (metis add_diff_inverse_nat funpow_add less_imp_le_nat not_less o_apply)
      with that(3) have "(f ^^ a) x = (f ^^ a) ((f ^^ (c - a)) x)" by simp
      then have "(f ^^ (c - a)) x = x" using funpow_inj[OF assms(1), of a] by (simp add: inj_eq)
      moreover have "0 < c - a" "c - a < q" using that(1,2) by simp_all
      ultimately show False using least by blast
    qed
    show "i = j"
    proof (rule ccontr)
      assume "i \<noteq> j"
      then consider "i < j" | "j < i" by linarith
      then show False using main[of i j] main[of j i] ij by cases simp_all
    qed
  qed
  with q least that show ?thesis by blast
qed

lemma knot_orbit:
  assumes comps: "numberOfComponents v = Some 1" and ne: "v \<noteq> []"
    and pos: "\<forall>x\<in>set v. 1 \<le> x"
  defines "p \<equiv> nat (max_braid v + 1)"
  shows "(next_index v ^^ p) 0 = 0"
    and "\<forall>j. 0 < j \<and> j < p \<longrightarrow> (next_index v ^^ j) 0 \<noteq> 0"
    and "bij_betw (\<lambda>j. (next_index v ^^ j) 0) {..<p} {0..max_braid v}"
proof -
  let ?g = "next_index v" and ?I = "{0..max_braid v}"
  have M: "1 \<le> max_braid v" by (rule max_braid_ge_1)
  have closed: "?g ` ?I \<subseteq> ?I" using next_index_range[OF pos] by auto
  have zero: "(0::int) \<in> ?I" using M by simp
  from numberOfComponents_cycles[OF ne pos] comps have "card (cycles ?g ?I) = 1" by simp
  then obtain c where c: "cycles ?g ?I = {c}" by (rule card_1_singletonE)
  have all: "cycle_of ?g x = c" if "x \<in> ?I" for x
    using c that by (auto simp: cycles_def)
  have orbit: "cycle_of ?g 0 = ?I"
  proof
    show "cycle_of ?g 0 \<subseteq> ?I" using closed zero by (rule cycle_of_subset)
    show "?I \<subseteq> cycle_of ?g 0"
    proof
      fix x assume x: "x \<in> ?I"
      have "x \<in> cycle_of ?g x" by (rule cycle_of_self)
      then show "x \<in> cycle_of ?g 0" using all[OF x] all[OF zero] by simp
    qed
  qed
  from returns_to_start[OF inj_next_index _ closed zero] obtain p0 where
    "0 < p0" "(?g ^^ p0) 0 = 0" by auto
  with inj_next_index obtain q where q: "0 < q" "(?g ^^ q) 0 = 0"
    "\<forall>j. 0 < j \<and> j < q \<longrightarrow> (?g ^^ j) 0 \<noteq> 0" "inj_on (\<lambda>j. (?g ^^ j) 0) {..<q}"
    by (rule least_period)
  have img: "(\<lambda>j. (?g ^^ j) 0) ` {..<q} = ?I"
    using cycle_of_period[OF q(2,1)] orbit by simp
  have "card ((\<lambda>j. (?g ^^ j) 0) ` {..<q}) = q" using q(4) by (simp add: card_image)
  with img have "q = card ?I" by simp
  then have "q = p" using M by (simp add: p_def)
  with q img show "(?g ^^ p) 0 = 0"
    and "\<forall>j. 0 < j \<and> j < p \<longrightarrow> (?g ^^ j) 0 \<noteq> 0"
    and "bij_betw (\<lambda>j. (?g ^^ j) 0) {..<p} ?I"
    by (simp_all add: bij_betw_def)
qed

lemma knot_positions:
  assumes comps: "numberOfComponents v = Some 1" and ne: "v \<noteq> []"
    and pos: "\<forall>x\<in>set v. 1 \<le> x" and i: "i \<le> length v"
  shows "bij_betw (\<lambda>j. dt_pos v (j * length v + i)) {..<nat (max_braid v + 1)} {0..max_braid v}"
proof -
  let ?I = "{0..max_braid v}"
  have letters: "\<forall>x\<in>set (take i v). 1 \<le> x \<and> x \<le> max_braid v"
    using pos max_braid_ge by (auto dest: in_set_takeD)
  have "bij_betw (fold dt_move (take i v)) ?I ?I"
    unfolding bij_betw_def using fold_dt_move_onto[OF letters] inj_fold_dt_move
    by (auto intro: inj_on_subset)
  with knot_orbit(3)[OF comps ne pos]
  have "bij_betw (fold dt_move (take i v) \<circ> (\<lambda>j. (next_index v ^^ j) 0))
          {..<nat (max_braid v + 1)} ?I"
    by (rule bij_betw_trans)
  moreover have "fold dt_move (take i v) \<circ> (\<lambda>j. (next_index v ^^ j) 0) =
      (\<lambda>j. dt_pos v (j * length v + i))"
    using i by (auto simp: dt_pos_at)
  ultimately show ?thesis by simp
qed

lemma knot_dt_loop:
  assumes comps: "numberOfComponents v = Some 1" and ne: "v \<noteq> []"
    and pos: "\<forall>x\<in>set v. 1 \<le> x"
  defines "p \<equiv> nat (max_braid v + 1)"
  shows "dt_loop v (dt_init v) = Some ((dt_run v (p * length v))\<lparr>dt_passed := int p\<rparr>)"
proof -
  have c: "dt_c ((dt_pass v ^^ j) (dt_init v)) = (next_index v ^^ j) 0" for j
    by (simp add: dt_pass_funpow dt_run_c dt_pos_pass)
  have "0 < p" using max_braid_ge_1[of v] by (simp add: p_def)
  moreover have "dt_c ((dt_pass v ^^ p) (dt_init v)) = 0"
    unfolding c p_def by (rule knot_orbit(1)[OF comps ne pos])
  moreover have "\<forall>j. 0 < j \<and> j < p \<longrightarrow> dt_c ((dt_pass v ^^ j) (dt_init v)) \<noteq> 0"
    unfolding c p_def by (rule knot_orbit(2)[OF comps ne pos])
  ultimately have "dt_loop v (dt_init v) = Some ((dt_pass v ^^ p) (dt_init v))"
    by (rule dt_loop_funpow)
  then show ?thesis by (simp add: dt_pass_funpow)
qed

lemma knot_printDT:
  assumes comps: "numberOfComponents v = Some 1" and ne: "v \<noteq> []"
    and pos: "\<forall>x\<in>set v. 1 \<le> x"
  shows "printDT v cnt =
    Some (True, dt_line (dt_code (dt_run v (nat (max_braid v + 1) * length v))) cnt)"
proof -
  have "int (nat (max_braid v + 1)) = max_braid v - 1 + 2"
    using max_braid_ge_1[of v] by simp
  then show ?thesis
    by (simp add: printDT_def knot_dt_loop[OF assms] Let_def dt_code_def)
qed

subsection \<open>The pass count of the DT-code extractor\<close>



subsection \<open>The shape of the DT code\<close>

lemma sum_blocks:
  fixes f :: "nat \<Rightarrow> int"
  shows "(\<Sum>s = a..<a + d * n. f s) = (\<Sum>u<n. \<Sum>r<d. f (a + u + r * n))"
proof (induction d)
  case 0
  show ?case by simp
next
  case (Suc d)
  have "(\<Sum>s = a..<a + Suc d * n. f s) =
        (\<Sum>s = a..<a + d * n. f s) + (\<Sum>s = a + d * n..<a + d * n + n. f s)"
    by (simp add: sum.atLeastLessThan_concat add.commute add.left_commute)
  also have "(\<Sum>s = a + d * n..<a + d * n + n. f s) = (\<Sum>u = 0..<n. f (u + (a + d * n)))"
    using sum.shift_bounds_nat_ivl[of f 0 "a + d * n" n] by (simp add: add.commute)
  also have "\<dots> = (\<Sum>u<n. f (a + u + d * n))"
    by (simp add: lessThan_atLeast0 ac_simps)
  finally show ?case by (simp add: Suc sum.distrib)
qed

lemma dt_lab_diff:
  "t1 \<le> t2 \<Longrightarrow> dt_lab v t2 - dt_lab v t1 = (\<Sum>s = t1..<t2. vis01 v s)"
proof (induction t2)
  case 0
  then show ?case by simp
next
  case (Suc t2)
  show ?case
  proof (cases "t1 = Suc t2")
    case True
    then show ?thesis by simp
  next
    case False
    with Suc.prems have le: "t1 \<le> t2" by simp
    from Suc.IH[OF le] show ?thesis using le by (simp add: dt_lab_Suc vis01_def)
  qed
qed

lemma dt_vis_iff: "dt_vis v t \<longleftrightarrow> dt_pos v t \<in> {v ! (t mod length v) - 1, v ! (t mod length v)}"
  by (auto simp: dt_vis_def)

lemma dt_move_swap_parity:
  assumes "finite Q"
  shows "even ((\<Sum>x\<in>dt_move a ` Q. x) - (\<Sum>x\<in>Q. x) - int (card (Q \<inter> {a - 1, a})))"
proof -
  consider (both) "a - 1 \<in> Q" "a \<in> Q" | (none) "a - 1 \<notin> Q" "a \<notin> Q"
    | (low) "a - 1 \<in> Q" "a \<notin> Q" | (high) "a - 1 \<notin> Q" "a \<in> Q" by blast
  then show ?thesis
  proof cases
    case both
    have "dt_move a ` Q = Q"
    proof
      show "dt_move a ` Q \<subseteq> Q" using both by (auto simp: dt_move_def)
      show "Q \<subseteq> dt_move a ` Q"
      proof
        fix x assume "x \<in> Q"
        then have "dt_move a x \<in> Q" using both by (auto simp: dt_move_def)
        then have "dt_move a (dt_move a x) \<in> dt_move a ` Q" by blast
        then show "x \<in> dt_move a ` Q" by (simp add: dt_move_involution)
      qed
    qed
    moreover have "Q \<inter> {a - 1, a} = {a - 1, a}" using both by blast
    ultimately show ?thesis by simp
  next
    case none
    have "dt_move a x = x" if "x \<in> Q" for x using that none by (auto simp: dt_move_def)
    then have "dt_move a ` Q = Q" by force
    moreover have "Q \<inter> {a - 1, a} = {}" using none by blast
    ultimately show ?thesis by simp
  next
    case low
    have img: "dt_move a ` Q = insert a (Q - {a - 1})"
    proof
      show "dt_move a ` Q \<subseteq> insert a (Q - {a - 1})"
        using low by (auto simp: dt_move_def)
      show "insert a (Q - {a - 1}) \<subseteq> dt_move a ` Q"
      proof
        fix x assume x: "x \<in> insert a (Q - {a - 1})"
        show "x \<in> dt_move a ` Q"
        proof (cases "x = a")
          case True
          have "dt_move a (a - 1) = a" by (simp add: dt_move_def)
          with low(1) True show ?thesis by (metis imageI)
        next
          case False
          with x have "x \<in> Q" "x \<noteq> a - 1" by auto
          with False have "dt_move a x = x" by (auto simp: dt_move_def)
          with \<open>x \<in> Q\<close> show ?thesis by (metis imageI)
        qed
      qed
    qed
    have "(\<Sum>x\<in>Q. x) = (a - 1) + (\<Sum>x\<in>Q - {a - 1}. x)"
      using assms low(1) by (rule sum.remove)
    moreover have "(\<Sum>x\<in>insert a (Q - {a - 1}). x) = a + (\<Sum>x\<in>Q - {a - 1}. x)"
      using assms low(2) by simp
    moreover have "Q \<inter> {a - 1, a} = {a - 1}" using low by blast
    ultimately show ?thesis by (simp add: img)
  next
    case high
    have img: "dt_move a ` Q = insert (a - 1) (Q - {a})"
    proof
      show "dt_move a ` Q \<subseteq> insert (a - 1) (Q - {a})"
        using high by (auto simp: dt_move_def)
      show "insert (a - 1) (Q - {a}) \<subseteq> dt_move a ` Q"
      proof
        fix x assume x: "x \<in> insert (a - 1) (Q - {a})"
        show "x \<in> dt_move a ` Q"
        proof (cases "x = a - 1")
          case True
          have "dt_move a a = a - 1" by (simp add: dt_move_def)
          with high(2) True show ?thesis by (metis imageI)
        next
          case False
          with x have "x \<in> Q" "x \<noteq> a" by auto
          with False have "dt_move a x = x" by (auto simp: dt_move_def)
          with \<open>x \<in> Q\<close> show ?thesis by (metis imageI)
        qed
      qed
    qed
    have "(\<Sum>x\<in>Q. x) = a + (\<Sum>x\<in>Q - {a}. x)"
      using assms high(2) by (rule sum.remove)
    moreover have "(\<Sum>x\<in>insert (a - 1) (Q - {a}). x) = (a - 1) + (\<Sum>x\<in>Q - {a}. x)"
      using assms high(1) by simp
    moreover have "Q \<inter> {a - 1, a} = {a}" using high by blast
    ultimately show ?thesis by (simp add: img)
  qed
qed

text \<open>The visits among the steps \<open>t, t + n, t + 2 n, ...\<close>, which look at the same letter.\<close>

lemma visits_in_column:
  assumes "inj_on (\<lambda>r. dt_pos v (t + r * length v)) {..<d}"
  shows "(\<Sum>r<d. vis01 v (t + r * length v)) =
     int (card ((\<lambda>r. dt_pos v (t + r * length v)) ` {..<d} \<inter>
        {v ! (t mod length v) - 1, v ! (t mod length v)}))"
proof -
  let ?h = "\<lambda>r. dt_pos v (t + r * length v)"
  let ?S = "{v ! (t mod length v) - 1, v ! (t mod length v)}"
  let ?R = "{r \<in> {..<d}. ?h r \<in> ?S}"
  have "(\<Sum>r<d. vis01 v (t + r * length v)) = (\<Sum>r<d. if ?h r \<in> ?S then 1 else 0)"
    by (rule sum.cong) (simp_all add: vis01_def dt_vis_iff)
  also have "\<dots> = int (card ?R)"
    by (simp add: sum.If_cases Int_def)
  also have "card ?R = card (?h ` ?R)"
  proof -
    have "inj_on ?h ?R" by (rule inj_on_subset[OF assms]) auto
    then show ?thesis by (rule card_image[symmetric])
  qed
  also have "?h ` ?R = ?h ` {..<d} \<inter> ?S" by auto
  finally show ?thesis .
qed

lemma knot_column_inj:
  assumes comps: "numberOfComponents v = Some 1" and ne: "v \<noteq> []"
    and pos: "\<forall>x\<in>set v. 1 \<le> x"
    and J: "t div length v + J \<le> nat (max_braid v + 1)"
  shows "inj_on (\<lambda>r. dt_pos v (t + r * length v)) {..<J}"
proof -
  let ?n = "length v"
  let ?p = "nat (max_braid v + 1)"
  have n: "0 < ?n" using ne by simp
  have i: "t mod ?n \<le> ?n" using n by (simp add: less_imp_le)
  have inj: "inj_on (\<lambda>j. dt_pos v (j * ?n + t mod ?n)) {..<?p}"
    using knot_positions[OF comps ne pos i] by (simp add: bij_betw_def)
  have eq: "t + r * ?n = (t div ?n + r) * ?n + t mod ?n" for r
    by (simp add: algebra_simps)
  show ?thesis
  proof (rule inj_onI)
    fix r r' assume r: "r \<in> {..<J}" "r' \<in> {..<J}"
      and e: "dt_pos v (t + r * ?n) = dt_pos v (t + r' * ?n)"
    from e have "dt_pos v ((t div ?n + r) * ?n + t mod ?n) =
        dt_pos v ((t div ?n + r') * ?n + t mod ?n)"
      using eq[of r] eq[of r'] by simp
    moreover have "t div ?n + r \<in> {..<?p}" "t div ?n + r' \<in> {..<?p}" using r J by auto
    ultimately have "t div ?n + r = t div ?n + r'" using inj by (auto dest: inj_onD)
    then show "r = r'" by simp
  qed
qed

lemma dt_pos_column_step:
  "(\<lambda>r. dt_pos v (t + Suc u + r * length v)) ` R =
   dt_move (v ! ((t + u) mod length v)) ` (\<lambda>r. dt_pos v (t + u + r * length v)) ` R"
proof -
  have "dt_pos v (t + Suc u + r * length v) =
      dt_move (v ! ((t + u) mod length v)) (dt_pos v (t + u + r * length v))" for r
  proof -
    have "t + Suc u + r * length v = Suc (t + u + r * length v)" by simp
    then show ?thesis by simp
  qed
  then show ?thesis by (simp add: image_image)
qed

text \<open>
  Between two visits of the same crossing, \<open>d\<close> passes apart, the number of visits has
  the parity of the difference of the two positions.
\<close>

lemma visits_between_parity:
  assumes comps: "numberOfComponents v = Some 1" and ne: "v \<noteq> []"
    and pos: "\<forall>x\<in>set v. 1 \<le> x"
    and d: "t div length v + d < nat (max_braid v + 1)"
  shows "even ((\<Sum>s = t..<t + d * length v. vis01 v s) -
               (dt_pos v (t + d * length v) - dt_pos v t))"
proof -
  let ?n = "length v"
  let ?Q = "\<lambda>u. (\<lambda>r. dt_pos v (t + u + r * ?n)) ` {..<d}"
  let ?S = "\<lambda>u. \<Sum>x\<in>?Q u. x"
  have n: "0 < ?n" using ne by simp
  have inj: "inj_on (\<lambda>r. dt_pos v (t + u + r * ?n)) {..<d}" if "u < ?n" for u
  proof -
    have "(t + u) div ?n \<le> t div ?n + 1"
    proof -
      have "t = t div ?n * ?n + t mod ?n" by simp
      moreover have "t mod ?n < ?n" using n by simp
      moreover have "(t div ?n + 2) * ?n = t div ?n * ?n + ?n + ?n" by (simp add: algebra_simps)
      ultimately have "t + u < (t div ?n + 2) * ?n" using that by linarith
      then have "(t + u) div ?n < t div ?n + 2" using n by (simp add: less_mult_imp_div_less)
      then show ?thesis by simp
    qed
    then have "(t + u) div ?n + d \<le> nat (max_braid v + 1)" using d by simp
    from knot_column_inj[OF comps ne pos this] show ?thesis .
  qed
  have col: "even ((\<Sum>r<d. vis01 v (t + u + r * ?n)) - (?S (Suc u) - ?S u))" if "u < ?n" for u
  proof -
    have 1: "(\<Sum>r<d. vis01 v (t + u + r * ?n)) =
        int (card (?Q u \<inter> {v ! ((t + u) mod ?n) - 1, v ! ((t + u) mod ?n)}))"
      using visits_in_column[OF inj[OF that]] .
    have 2: "?Q (Suc u) = dt_move (v ! ((t + u) mod ?n)) ` ?Q u"
      using dt_pos_column_step[of v t u "{..<d}"] by simp
    have "finite (?Q u)" by simp
    from dt_move_swap_parity[OF this, of "v ! ((t + u) mod ?n)"]
    show ?thesis unfolding 1 2 by presburger
  qed
  have blocks: "(\<Sum>s = t..<t + d * ?n. vis01 v s) = (\<Sum>u<?n. \<Sum>r<d. vis01 v (t + u + r * ?n))"
    by (rule sum_blocks)
  have tele: "(\<Sum>u<?n. ?S (Suc u) - ?S u) = ?S ?n - ?S 0"
    by (rule sum_lessThan_telescope)
  have "even (\<Sum>u<?n. (\<Sum>r<d. vis01 v (t + u + r * ?n)) - (?S (Suc u) - ?S u))"
    by (rule dvd_sum) (use col in simp)
  moreover have "(\<Sum>u<?n. (\<Sum>r<d. vis01 v (t + u + r * ?n)) - (?S (Suc u) - ?S u)) =
      (\<Sum>u<?n. \<Sum>r<d. vis01 v (t + u + r * ?n)) - (\<Sum>u<?n. ?S (Suc u) - ?S u)"
    by (rule sum_subtractf)
  ultimately have ev: "even ((\<Sum>s = t..<t + d * ?n. vis01 v s) - (?S ?n - ?S 0))"
    by (simp only: blocks tele)
  let ?h = "\<lambda>r. dt_pos v (t + r * ?n)"
  have injh: "inj_on ?h {..<Suc d}"
    by (rule knot_column_inj[OF comps ne pos]) (use d in simp)
  have S0: "?S 0 = (\<Sum>r<d. ?h r)"
  proof -
    have "inj_on ?h {..<d}" by (rule inj_on_subset[OF injh]) auto
    from sum.reindex[OF this, of "\<lambda>x. x"] show ?thesis by (simp add: comp_def)
  qed
  have Sn: "?S ?n = (\<Sum>r<d. ?h (Suc r))"
  proof -
    have "?Q ?n = (?h \<circ> Suc) ` {..<d}" by (simp add: image_comp algebra_simps comp_def)
    moreover have "inj_on (?h \<circ> Suc) {..<d}"
    proof (rule comp_inj_on)
      show "inj_on Suc {..<d}" by simp
      show "inj_on ?h (Suc ` {..<d})" by (rule inj_on_subset[OF injh]) auto
    qed
    from sum.reindex[OF this, of "\<lambda>x. x"]
    have "(\<Sum>x\<in>(?h \<circ> Suc) ` {..<d}. x) = (\<Sum>r<d. ?h (Suc r))" by (simp add: comp_def)
    ultimately show ?thesis by simp
  qed
  have "?S ?n - ?S 0 = (\<Sum>r<d. ?h (Suc r) - ?h r)" unfolding S0 Sn by (simp add: sum_subtractf)
  also have "\<dots> = ?h d - ?h 0" by (rule sum_lessThan_telescope)
  finally have fin: "?S ?n - ?S 0 = dt_pos v (t + d * ?n) - dt_pos v t" by simp
  from ev show ?thesis unfolding fin .
qed

lemma knot_two_visits:
  assumes comps: "numberOfComponents v = Some 1" and ne: "v \<noteq> []"
    and pos: "\<forall>x\<in>set v. 1 \<le> x" and k: "k < length v"
  shows "\<exists>ja jb. ja < nat (max_braid v + 1) \<and> jb < nat (max_braid v + 1) \<and>
    dt_pos v (ja * length v + k) = v ! k - 1 \<and> dt_pos v (jb * length v + k) = v ! k \<and>
    (\<forall>j. j < nat (max_braid v + 1) \<and> dt_vis v (j * length v + k) \<longrightarrow> j = ja \<or> j = jb)"
proof -
  let ?n = "length v"
  let ?p = "nat (max_braid v + 1)"
  let ?h = "\<lambda>j. dt_pos v (j * ?n + k)"
  have bij: "bij_betw ?h {..<?p} {0..max_braid v}"
    using knot_positions[OF comps ne pos, of k] k by simp
  then have img: "?h ` {..<?p} = {0..max_braid v}" and inj: "inj_on ?h {..<?p}"
    by (simp_all add: bij_betw_def)
  have "v ! k \<in> set v" using k by simp
  then have x: "1 \<le> v ! k" "v ! k \<le> max_braid v" using pos max_braid_ge by auto
  have "v ! k - 1 \<in> ?h ` {..<?p}" using x unfolding img by simp
  then obtain ja where ja: "ja < ?p" "?h ja = v ! k - 1" by auto
  have "v ! k \<in> ?h ` {..<?p}" using x unfolding img by simp
  then obtain jb where jb: "jb < ?p" "?h jb = v ! k" by auto
  have "j = ja \<or> j = jb" if j: "j < ?p" and vis: "dt_vis v (j * ?n + k)" for j
  proof -
    have "(j * ?n + k) mod ?n = k" using k by simp
    with vis have "?h j = v ! k - 1 \<or> ?h j = v ! k" by (simp add: dt_vis_iff)
    then have "?h j = ?h ja \<or> ?h j = ?h jb" using ja jb by simp
    then show ?thesis using inj j ja(1) jb(1) by (auto dest: inj_onD)
  qed
  with ja jb show ?thesis by blast
qed

lemma knot_visit_labels_parity:
  assumes comps: "numberOfComponents v = Some 1" and ne: "v \<noteq> []"
    and pos: "\<forall>x\<in>set v. 1 \<le> x" and k: "k < length v"
    and d: "j + d < nat (max_braid v + 1)"
    and diff: "odd (dt_pos v ((j + d) * length v + k) - dt_pos v (j * length v + k))"
  shows "odd (dt_lab v ((j + d) * length v + k) - dt_lab v (j * length v + k))"
proof -
  let ?n = "length v"
  let ?t = "j * ?n + k"
  have tdiv: "?t div ?n = j" using k ne by simp
  have t2: "?t + d * ?n = (j + d) * ?n + k" by (simp add: algebra_simps)
  have "even ((\<Sum>s = ?t..<?t + d * ?n. vis01 v s) - (dt_pos v (?t + d * ?n) - dt_pos v ?t))"
    by (rule visits_between_parity[OF comps ne pos]) (use d in \<open>simp only: tdiv\<close>)
  moreover have "dt_lab v (?t + d * ?n) - dt_lab v ?t = (\<Sum>s = ?t..<?t + d * ?n. vis01 v s)"
    by (rule dt_lab_diff) simp
  ultimately have "even ((dt_lab v ((j + d) * ?n + k) - dt_lab v ?t) -
      (dt_pos v ((j + d) * ?n + k) - dt_pos v ?t))"
    by (simp only: t2)
  with diff show ?thesis by simp
qed

lemma dt_lab_strict:
  assumes "dt_vis v t" "t < t'"
  shows "dt_lab v t < dt_lab v t'"
proof -
  have "{s. s < t \<and> dt_vis v s} \<subset> {s. s < t' \<and> dt_vis v s}" using assms by auto
  moreover have "finite {s. s < t' \<and> dt_vis v s}" by simp
  ultimately have "card {s. s < t \<and> dt_vis v s} < card {s. s < t' \<and> dt_vis v s}"
    by (simp add: psubset_card_mono)
  then show ?thesis by (simp add: dt_lab_def)
qed

lemma knot_total_visits:
  assumes comps: "numberOfComponents v = Some 1" and ne: "v \<noteq> []"
    and pos: "\<forall>x\<in>set v. 1 \<le> x"
  shows "dt_lab v (nat (max_braid v + 1) * length v) = 1 + 2 * int (length v)"
proof -
  let ?n = "length v"
  let ?p = "nat (max_braid v + 1)"
  have col: "(\<Sum>r<?p. vis01 v (0 + u + r * ?n)) = 2" if u: "u < ?n" for u
  proof -
    let ?h = "\<lambda>r. dt_pos v (u + r * ?n)"
    have "bij_betw (\<lambda>j. dt_pos v (j * ?n + u)) {..<?p} {0..max_braid v}"
      using knot_positions[OF comps ne pos, of u] u by simp
    moreover have "(\<lambda>j. dt_pos v (j * ?n + u)) = ?h" by (simp add: add.commute)
    ultimately have img: "?h ` {..<?p} = {0..max_braid v}" and inj: "inj_on ?h {..<?p}"
      by (simp_all add: bij_betw_def)
    have "v ! u \<in> set v" using u by simp
    then have x: "1 \<le> v ! u" "v ! u \<le> max_braid v" using pos max_braid_ge by auto
    have umod: "u mod ?n = u" using u by simp
    have "(\<Sum>r<?p. vis01 v (u + r * ?n)) =
        int (card (?h ` {..<?p} \<inter> {v ! (u mod ?n) - 1, v ! (u mod ?n)}))"
      using inj by (rule visits_in_column)
    also have "?h ` {..<?p} \<inter> {v ! (u mod ?n) - 1, v ! (u mod ?n)} = {v ! u - 1, v ! u}"
      unfolding img umod using x by auto
    also have "card {v ! u - 1, v ! u} = 2" by simp
    finally show ?thesis by simp
  qed
  have "dt_lab v (?p * ?n) - dt_lab v 0 = (\<Sum>s = 0..<?p * ?n. vis01 v s)"
    by (rule dt_lab_diff) simp
  also have "\<dots> = (\<Sum>u<?n. \<Sum>r<?p. vis01 v (0 + u + r * ?n))"
    using sum_blocks[of "vis01 v" 0 ?p ?n] by simp
  also have "\<dots> = (\<Sum>u<?n. 2)" by (rule sum.cong) (use col in auto)
  finally show ?thesis by (simp add: dt_lab_def)
qed

text \<open>What a step does to the odd label of the crossing \<open>k\<close>.\<close>

lemma dt_visit_o_other:
  assumes "k' \<noteq> k"
  shows "o_of (dt_n (dt_visit v k' st) ! k) = o_of (dt_n st ! k)"
  using assms by (auto simp: dt_visit_def Let_def)

lemma dt_visit_o_even:
  assumes "dt_crossingCounter st mod 2 = 0" "k < length (dt_n st)"
  shows "o_of (dt_n (dt_visit v k' st) ! k) = o_of (dt_n st ! k)"
proof (cases "k' = k")
  case False
  then show ?thesis by (rule dt_visit_o_other)
next
  case True
  with assms show ?thesis by (auto simp: dt_visit_def Let_def)
qed

lemma dt_visit_o_odd:
  assumes "v ! k = dt_c st \<or> v ! k = dt_c st + 1" "dt_crossingCounter st mod 2 \<noteq> 0"
    "k < length (dt_n st)"
  shows "o_of (dt_n (dt_visit v k st) ! k) = dt_crossingCounter st"
  using assms by (auto simp: dt_visit_def Let_def)

lemma dt_run_o:
  assumes t: "t mod length v = k" "dt_vis v t" "odd (dt_lab v t)" and k: "k < length v"
  shows "t < T \<Longrightarrow>
    (\<forall>t'. t < t' \<and> t' < T \<and> t' mod length v = k \<and> dt_vis v t' \<longrightarrow> even (dt_lab v t')) \<Longrightarrow>
    o_of (dt_n (dt_run v T) ! k) = dt_lab v t"
proof (induction T)
  case 0
  then show ?case by simp
next
  case (Suc T)
  show ?case
  proof (cases "t = T")
    case True
    have "v ! k = dt_c (dt_run v T) \<or> v ! k = dt_c (dt_run v T) + 1"
      using t(1,2) True by (simp add: dt_run_c dt_vis_def)
    moreover have "dt_crossingCounter (dt_run v T) mod 2 \<noteq> 0"
      using t(3) True by (simp add: dt_run_cc odd_iff_mod_2_eq_one)
    moreover have "k < length (dt_n (dt_run v T))" using k by (simp add: dt_run_length)
    ultimately have "o_of (dt_n (dt_visit v k (dt_run v T)) ! k) = dt_crossingCounter (dt_run v T)"
      by (rule dt_visit_o_odd)
    then show ?thesis using t(1) True by (simp add: dt_run_Suc dt_run_cc)
  next
    case False
    with Suc.prems(1) have tT: "t < T" by simp
    have IH: "o_of (dt_n (dt_run v T) ! k) = dt_lab v t"
      using Suc.IH[OF tT] Suc.prems(2) by simp
    have "o_of (dt_n (dt_visit v (T mod length v) (dt_run v T)) ! k) = o_of (dt_n (dt_run v T) ! k)"
    proof (cases "T mod length v = k")
      case False
      then show ?thesis by (rule dt_visit_o_other)
    next
      case True
      show ?thesis
      proof (cases "dt_vis v T")
        case False
        then have "dt_visit v (T mod length v) (dt_run v T) = dt_run v T"
          by (intro dt_visit_e_skip) (simp add: dt_run_c dt_vis_def)
        then show ?thesis by simp
      next
        case vis: True
        with Suc.prems(2) tT True have "even (dt_lab v T)" by simp
        then have "dt_crossingCounter (dt_run v T) mod 2 = 0"
          by (simp add: dt_run_cc)
        moreover have "k < length (dt_n (dt_run v T))" using k by (simp add: dt_run_length)
        ultimately show ?thesis by (rule dt_visit_o_even)
      qed
    qed
    with IH show ?thesis by (simp add: dt_run_Suc)
  qed
qed

text \<open>The two labels that the traversal leaves at the crossing \<open>k\<close>.\<close>

lemma knot_labels:
  assumes comps: "numberOfComponents v = Some 1" and ne: "v \<noteq> []"
    and pos: "\<forall>x\<in>set v. 1 \<le> x" and k: "k < length v"
  obtains te to where "te < nat (max_braid v + 1) * length v" "te mod length v = k" "dt_vis v te"
    "even (dt_lab v te)"
    "e_of (dt_n (dt_run v (nat (max_braid v + 1) * length v)) ! k) = dt_lab v te"
    "to < nat (max_braid v + 1) * length v" "to mod length v = k" "dt_vis v to"
    "odd (dt_lab v to)"
    "o_of (dt_n (dt_run v (nat (max_braid v + 1) * length v)) ! k) = dt_lab v to"
proof -
  let ?n = "length v"
  let ?p = "nat (max_braid v + 1)"
  let ?T = "?p * ?n"
  have n: "0 < ?n" using ne by simp
  note found = that
  have main: thesis
    if je: "je < ?p" and vis: "dt_vis v (je * ?n + k)" and ev: "even (dt_lab v (je * ?n + k))"
      and jo: "jo < ?p" and viso: "dt_vis v (jo * ?n + k)" and od: "odd (dt_lab v (jo * ?n + k))"
      and only: "\<And>j. j < ?p \<Longrightarrow> dt_vis v (j * ?n + k) \<Longrightarrow> j = je \<or> j = jo"
    for je jo
  proof -
    let ?te = "je * ?n + k"
    have "Suc je * ?n \<le> ?p * ?n" using je by (intro mult_le_mono1) simp
    then have lt: "?te < ?T" using k by simp
    have md: "?te mod ?n = k" using k by simp
    have later: "\<forall>t'. ?te < t' \<and> t' < ?T \<and> t' mod ?n = k \<and> dt_vis v t' \<longrightarrow> odd (dt_lab v t')"
    proof (intro allI impI)
      fix t' assume a: "?te < t' \<and> t' < ?T \<and> t' mod ?n = k \<and> dt_vis v t'"
      have t': "t' = (t' div ?n) * ?n + k" using a by (metis div_mult_mod_eq)
      have "t' div ?n < ?p" using a n by (simp add: less_mult_imp_div_less)
      moreover have "dt_vis v ((t' div ?n) * ?n + k)" using a t' by simp
      ultimately have "t' div ?n = je \<or> t' div ?n = jo" by (rule only)
      moreover have "t' div ?n \<noteq> je" using a t' by auto
      ultimately have "t' = jo * ?n + k" using t' by simp
      with od show "odd (dt_lab v t')" by simp
    qed
    have e: "e_of (dt_n (dt_run v ?T) ! k) = dt_lab v ?te"
      using md vis ev k lt later by (rule dt_run_e)
    let ?to = "jo * ?n + k"
    have "Suc jo * ?n \<le> ?p * ?n" using jo by (intro mult_le_mono1) simp
    then have lto: "?to < ?T" using k by simp
    have mdo: "?to mod ?n = k" using k by simp
    have latero: "\<forall>t'. ?to < t' \<and> t' < ?T \<and> t' mod ?n = k \<and> dt_vis v t' \<longrightarrow> even (dt_lab v t')"
    proof (intro allI impI)
      fix t' assume a: "?to < t' \<and> t' < ?T \<and> t' mod ?n = k \<and> dt_vis v t'"
      have t': "t' = (t' div ?n) * ?n + k" using a by (metis div_mult_mod_eq)
      have "t' div ?n < ?p" using a n by (simp add: less_mult_imp_div_less)
      moreover have "dt_vis v ((t' div ?n) * ?n + k)" using a t' by simp
      ultimately have "t' div ?n = je \<or> t' div ?n = jo" by (rule only)
      moreover have "t' div ?n \<noteq> jo" using a t' by auto
      ultimately have "t' = je * ?n + k" using t' by simp
      with ev show "even (dt_lab v t')" by simp
    qed
    have o: "o_of (dt_n (dt_run v ?T) ! k) = dt_lab v ?to"
      using mdo viso od k lto latero by (rule dt_run_o)
    from lt md vis ev e lto mdo viso od o show ?thesis by (rule found)
  qed
  obtain ja jb where ja: "ja < ?p" and jb: "jb < ?p"
    and pa: "dt_pos v (ja * ?n + k) = v ! k - 1" and pb: "dt_pos v (jb * ?n + k) = v ! k"
    and only': "\<forall>j. j < ?p \<and> dt_vis v (j * ?n + k) \<longrightarrow> j = ja \<or> j = jb"
    using knot_two_visits[OF comps ne pos k] by blast
  have only: "j = ja \<or> j = jb" if "j < ?p" "dt_vis v (j * ?n + k)" for j
    using only' that by blast
  have md: "(j * ?n + k) mod ?n = k" for j using k by simp
  have va: "dt_vis v (ja * ?n + k)" and vb: "dt_vis v (jb * ?n + k)"
    using pa pb k by (simp_all add: dt_vis_iff)
  have neq: "ja \<noteq> jb" using pa pb by auto
  have par: "odd (dt_lab v (jb * ?n + k) - dt_lab v (ja * ?n + k))"
  proof (cases "ja < jb")
    case True
    then obtain d where d: "jb = ja + d" using less_imp_add_positive by blast
    have "odd (dt_lab v ((ja + d) * ?n + k) - dt_lab v (ja * ?n + k))"
      by (rule knot_visit_labels_parity[OF comps ne pos k]) (use jb pa pb d in simp_all)
    then show ?thesis by (simp add: d)
  next
    case False
    with neq have "jb < ja" by simp
    then obtain d where d: "ja = jb + d" using less_imp_add_positive by blast
    have "odd (dt_lab v ((jb + d) * ?n + k) - dt_lab v (jb * ?n + k))"
      by (rule knot_visit_labels_parity[OF comps ne pos k]) (use ja pa pb d in simp_all)
    then show ?thesis by (simp add: d)
  qed
  show thesis
  proof (cases "even (dt_lab v (ja * ?n + k))")
    case True
    with par have "odd (dt_lab v (jb * ?n + k))" by simp
    with ja va True jb vb show ?thesis using only by (intro main)
  next
    case False
    with par have "even (dt_lab v (jb * ?n + k))" by simp
    from jb vb this ja va False show ?thesis
    proof (rule main)
      fix j assume "j < ?p" "dt_vis v (j * ?n + k)"
      then show "j = jb \<or> j = ja" using only by blast
    qed
  qed
qed


lemma knot_label_range:
  assumes comps: "numberOfComponents v = Some 1" and ne: "v \<noteq> []"
    and pos: "\<forall>x\<in>set v. 1 \<le> x"
    and t: "dt_vis v t" "t < nat (max_braid v + 1) * length v"
  shows "1 \<le> dt_lab v t \<and> dt_lab v t \<le> 2 * int (length v)"
proof -
  have "dt_lab v t < dt_lab v (nat (max_braid v + 1) * length v)"
    using t by (rule dt_lab_strict)
  then show ?thesis by (simp add: knot_total_visits[OF comps ne pos]) (simp add: dt_lab_def)
qed

lemma dt_lab_inj:
  assumes "dt_vis v t" "dt_vis v t'" "t \<noteq> t'"
  shows "dt_lab v t \<noteq> dt_lab v t'"
proof (cases "t < t'")
  case True
  with assms(1) have "dt_lab v t < dt_lab v t'" by (rule dt_lab_strict)
  then show ?thesis by simp
next
  case False
  with assms(3) have "t' < t" by simp
  with assms(2) have "dt_lab v t' < dt_lab v t" by (rule dt_lab_strict)
  then show ?thesis by simp
qed

lemma knot_even_labels:
  assumes comps: "numberOfComponents v = Some 1" and ne: "v \<noteq> []"
    and pos: "\<forall>x\<in>set v. 1 \<le> x"
  defines "N \<equiv> dt_n (dt_run v (nat (max_braid v + 1) * length v))"
  shows "inj_on (\<lambda>k. e_of (N ! k)) {..<length v}"
    and "(\<lambda>k. e_of (N ! k)) ` {..<length v} = (\<lambda>i. 2 * int i) ` {1..length v}"
proof -
  let ?n = "length v"
  let ?E = "\<lambda>k. e_of (N ! k)"
  let ?B = "(\<lambda>i. 2 * int i) ` {1..?n}"
  show inj: "inj_on ?E {..<?n}"
  proof (rule inj_onI)
    fix k k' assume k: "k \<in> {..<?n}" "k' \<in> {..<?n}" and eq: "?E k = ?E k'"
    from k(1) obtain te where te: "te mod ?n = k" "dt_vis v te" "?E k = dt_lab v te"
      unfolding N_def using knot_labels[OF comps ne pos, of k] by (metis lessThan_iff)
    from k(2) obtain te' where te': "te' mod ?n = k'" "dt_vis v te'" "?E k' = dt_lab v te'"
      unfolding N_def using knot_labels[OF comps ne pos, of k'] by (metis lessThan_iff)
    show "k = k'"
    proof (rule ccontr)
      assume "k \<noteq> k'"
      with te(1) te'(1) have "te \<noteq> te'" by auto
      with te(2) te'(2) have "dt_lab v te \<noteq> dt_lab v te'" by (rule dt_lab_inj)
      with eq te(3) te'(3) show False by simp
    qed
  qed
  have sub: "?E ` {..<?n} \<subseteq> ?B"
  proof
    fix y assume "y \<in> ?E ` {..<?n}"
    then obtain k where k: "k < ?n" "y = ?E k" by auto
    from k(1) obtain te where te: "te < nat (max_braid v + 1) * ?n" "dt_vis v te"
      "even (dt_lab v te)" "?E k = dt_lab v te"
      unfolding N_def using knot_labels[OF comps ne pos, of k] by metis
    from knot_label_range[OF comps ne pos te(2,1)]
    have r: "1 \<le> y" "y \<le> 2 * int ?n" using k(2) te(4) by simp_all
    from te(3,4) k(2) have "even y" by simp
    then obtain z where z: "y = 2 * z" by (rule evenE)
    with r have "1 \<le> nat z" "nat z \<le> ?n" "y = 2 * int (nat z)" by auto
    then show "y \<in> ?B" by (metis atLeastAtMost_iff imageI)
  qed
  have "card (?E ` {..<?n}) = ?n" using inj by (simp add: card_image)
  moreover have "card ?B = ?n"
  proof -
    have "inj_on (\<lambda>i. 2 * int i) {1..?n}" by (rule inj_onI) simp
    then show ?thesis by (simp add: card_image)
  qed
  ultimately show "?E ` {..<?n} = ?B"
    using sub by (intro card_subset_eq) simp_all
qed

lemma knot_odd_labels:
  assumes comps: "numberOfComponents v = Some 1" and ne: "v \<noteq> []"
    and pos: "\<forall>x\<in>set v. 1 \<le> x"
  defines "N \<equiv> dt_n (dt_run v (nat (max_braid v + 1) * length v))"
  shows "inj_on (\<lambda>k. o_of (N ! k)) {..<length v}"
proof (rule inj_onI)
  let ?n = "length v"
  let ?O = "\<lambda>k. o_of (N ! k)"
  fix k k' assume k: "k \<in> {..<?n}" "k' \<in> {..<?n}" and eq: "?O k = ?O k'"
  from k(1) obtain t where t: "t mod ?n = k" "dt_vis v t" "?O k = dt_lab v t"
    unfolding N_def using knot_labels[OF comps ne pos, of k] by (metis lessThan_iff)
  from k(2) obtain t' where t': "t' mod ?n = k'" "dt_vis v t'" "?O k' = dt_lab v t'"
    unfolding N_def using knot_labels[OF comps ne pos, of k'] by (metis lessThan_iff)
  show "k = k'"
  proof (rule ccontr)
    assume "k \<noteq> k'"
    with t(1) t'(1) have "t \<noteq> t'" by auto
    with t(2) t'(2) have "dt_lab v t \<noteq> dt_lab v t'" by (rule dt_lab_inj)
    with eq t(3) t'(3) show False by simp
  qed
qed

lemma dt_code_of_labels:
  assumes len: "length (dt_n st) = n"
    and inj: "inj_on (\<lambda>k. e_of (dt_n st ! k)) {..<n}"
    and img: "(\<lambda>k. e_of (dt_n st ! k)) ` {..<n} = (\<lambda>i. 2 * int i) ` {1..n}"
  shows "length (dt_code st) = n"
    and "abs ` set (dt_code st) = (\<lambda>i. 2 * int i) ` {1..n}"
    and "distinct (map abs (dt_code st))"
    and "\<forall>x\<in>set (dt_code st). x \<noteq> 0"
proof -
  let ?ns = "dt_n st"
  let ?g = "\<lambda>p. e_of p * (if s_of p then 1 else - 1)"
  let ?a = "\<lambda>p. \<bar>e_of p\<bar>"
  have nth: "set ?ns = (\<lambda>k. ?ns ! k) ` {..<n}"
    using len by (auto simp: set_conv_nth)
  have posE: "0 < e_of (?ns ! k)" if "k < n" for k
  proof -
    have "e_of (?ns ! k) \<in> (\<lambda>i. 2 * int i) ` {1..n}" using that img by blast
    then show ?thesis by auto
  qed
  have ag: "abs \<circ> ?g = ?a" by (auto simp: fun_eq_iff)
  show "length (dt_code st) = n" by (simp add: dt_code_def len)
  have "abs ` set (dt_code st) = ?a ` set ?ns"
    by (simp add: dt_code_def image_comp ag)
  also have "\<dots> = (\<lambda>k. \<bar>e_of (?ns ! k)\<bar>) ` {..<n}" by (simp add: nth image_image)
  also have "\<dots> = (\<lambda>k. e_of (?ns ! k)) ` {..<n}"
  proof (rule image_cong)
    fix k assume "k \<in> {..<n}"
    then have "0 < e_of (?ns ! k)" using posE by simp
    then show "\<bar>e_of (?ns ! k)\<bar> = e_of (?ns ! k)" by simp
  qed simp
  finally show abs_set: "abs ` set (dt_code st) = (\<lambda>i. 2 * int i) ` {1..n}" using img by simp
  have dist: "distinct ?ns"
    unfolding distinct_conv_nth
  proof (intro allI impI)
    fix i j assume "i < length ?ns" "j < length ?ns" "i \<noteq> j"
    then have "e_of (?ns ! i) \<noteq> e_of (?ns ! j)" using inj len by (auto dest: inj_onD)
    then show "?ns ! i \<noteq> ?ns ! j" by auto
  qed
  have inja: "inj_on ?a (set ?ns)"
  proof (rule inj_onI)
    fix p q assume "p \<in> set ?ns" "q \<in> set ?ns" and eq: "?a p = ?a q"
    then obtain i j where i: "i < n" "p = ?ns ! i" and j: "j < n" "q = ?ns ! j"
      unfolding nth by auto
    from eq posE[OF i(1)] posE[OF j(1)] i(2) j(2) have "e_of (?ns ! i) = e_of (?ns ! j)" by simp
    with inj i(1) j(1) have "i = j" by (auto dest: inj_onD)
    with i j show "p = q" by simp
  qed
  have "map abs (dt_code st) = map ?a (sort_key o_of ?ns)"
    by (simp add: dt_code_def ag)
  moreover have "distinct (map ?a (sort_key o_of ?ns))"
    using dist inja by (simp add: distinct_map)
  ultimately show "distinct (map abs (dt_code st))" by simp
  show "\<forall>x\<in>set (dt_code st). x \<noteq> 0"
  proof
    fix x assume "x \<in> set (dt_code st)"
    then have "\<bar>x\<bar> \<in> (\<lambda>i. 2 * int i) ` {1..n}" using abs_set by blast
    then show "x \<noteq> 0" by auto
  qed
qed

text \<open>
  Claim C6. For every word \<open>w\<close> emitted by a run with \<open>maxB1 \<ge> 0\<close>, \<open>printDT\<close> prints the
  DT code \<open>dt_code wst\<close> of the final state \<open>wst\<close> of the traversal. It has as many entries
  as \<open>w\<close> has letters, no entry is zero, the absolute values of the entries are exactly
  \<open>2, 4, ..., 2 * length w\<close>, and no absolute value occurs twice. The odd labels, by which
  the table is sorted, are distinct, so the order of the entries does not depend on the
  sorting algorithm.
\<close>

theorem dt_code_shape:
  assumes "0 \<le> maxB1" "listBraids maxB1 = Some st" "w \<in> set (emitted st)"
  shows "\<exists>wst. dt_loop w (dt_init w) = Some wst \<and>
     printDT w cnt = Some (True, dt_line (dt_code wst) cnt) \<and>
     distinct (map o_of (dt_n wst)) \<and>
     length (dt_code wst) = length w \<and>
     (\<forall>x\<in>set (dt_code wst). x \<noteq> 0) \<and>
     abs ` set (dt_code wst) = (\<lambda>i. 2 * int i) ` {1..length w} \<and>
     distinct (map abs (dt_code wst))"
proof -
  have r: "reachable maxB1 st" using assms(2) by (rule listBraids_reachable)
  from reachable_emitted[OF r assms(3)] have
    c: "completable w maxB1 = Some 15" and d: "\<not> b1 w < maxB1"
    and pos: "\<forall>x\<in>set w. 1 \<le> x" and len: "1 < length w"
    by blast+
  from accepted_word[OF c d] have comps: "numberOfComponents w = Some 1" by simp
  have ne: "w \<noteq> []" using len by auto
  let ?p = "nat (max_braid w + 1)"
  let ?run = "dt_run w (?p * length w)"
  let ?wst = "?run\<lparr>dt_passed := int ?p\<rparr>"
  have 1: "dt_loop w (dt_init w) = Some ?wst" using comps ne pos by (rule knot_dt_loop)
  have 2: "dt_passed ?wst = max_braid w + 1" using max_braid_ge_1[of w] by simp
  have 3: "printDT w cnt = Some (True, dt_line (dt_code ?wst) cnt)"
    using 1 2 by (simp add: printDT_def)
  have n: "dt_n ?wst = dt_n ?run" by simp
  have l: "length (dt_n ?wst) = length w" by (simp add: dt_run_length)
  have e1: "inj_on (\<lambda>k. e_of (dt_n ?wst ! k)) {..<length w}"
    unfolding n by (rule knot_even_labels(1)[OF comps ne pos])
  have e2: "(\<lambda>k. e_of (dt_n ?wst ! k)) ` {..<length w} = (\<lambda>i. 2 * int i) ` {1..length w}"
    unfolding n by (rule knot_even_labels(2)[OF comps ne pos])
  have o: "inj_on (\<lambda>k. o_of (dt_n ?wst ! k)) {..<length w}"
    unfolding n by (rule knot_odd_labels[OF comps ne pos])
  have 4: "distinct (map o_of (dt_n ?wst))"
    unfolding distinct_conv_nth
  proof (intro allI impI)
    fix i j assume "i < length (map o_of (dt_n ?wst))" "j < length (map o_of (dt_n ?wst))" "i \<noteq> j"
    then show "map o_of (dt_n ?wst) ! i \<noteq> map o_of (dt_n ?wst) ! j"
      using o l by (auto dest: inj_onD)
  qed
  note s = dt_code_of_labels[OF l e1 e2]
  from 1 3 4 s show ?thesis by blast
qed

theorem dt_code_shape_witness:
  "(0 :: int) \<le> 2 \<and>
   listBraids 2 =
     Some \<lparr>braid = [2], counter = 1, out = ''aaa: 3 1 4 6 2'' @ newline,
           emitted = [[1, 1, 1]]\<rparr> \<and>
   map_option dt_code (dt_loop [1, 1, 1] (dt_init [1, 1, 1])) = Some [4, 6, 2] \<and>
   (\<exists>wst. dt_loop [1, 1, 1] (dt_init [1, 1, 1]) = Some wst \<and>
     printDT [1, 1, 1] 1 = Some (True, dt_line (dt_code wst) 1) \<and>
     distinct (map o_of (dt_n wst)) \<and>
     length (dt_code wst) = 3 \<and>
     list_all (\<lambda>x. x \<noteq> 0) (dt_code wst) \<and>
     abs ` set (dt_code wst) = {2, 4, 6} \<and>
     distinct (map abs (dt_code wst)))"
proof -
  have 1: "map_option dt_code (dt_loop [1, 1, 1] (dt_init [1, 1, 1])) = Some [4, 6, 2]"
    by code_simp
  have 2: "(\<lambda>i. 2 * int i) ` {1..length [1 :: int, 1, 1]} = {2, 4, 6}"
  proof -
    have "{1..length [1 :: int, 1, 1]} = {1, 2, 3 :: nat}" by auto
    then show ?thesis by simp
  qed
  have 3: "[1, 1, 1] \<in> set (emitted \<lparr>braid = [2], counter = 1,
      out = ''aaa: 3 1 4 6 2'' @ newline, emitted = [[1 :: int, 1, 1]]\<rparr>)"
    by simp
  have 0: "(0 :: int) \<le> 2" by simp
  from dt_code_shape[OF 0 listBraids_2 3, of 1]
  have "\<exists>wst. dt_loop [1, 1, 1] (dt_init [1, 1, 1]) = Some wst \<and>
     printDT [1, 1, 1] 1 = Some (True, dt_line (dt_code wst) 1) \<and>
     distinct (map o_of (dt_n wst)) \<and>
     length (dt_code wst) = 3 \<and>
     list_all (\<lambda>x. x \<noteq> 0) (dt_code wst) \<and>
     abs ` set (dt_code wst) = {2, 4, 6} \<and>
     distinct (map abs (dt_code wst))"
    unfolding 2 by (simp add: list_all_iff numeral_3_eq_3)
  with 1 listBraids_2 show ?thesis by simp
qed

end
